theory Spec2Isabelle
  imports Main
begin

section \<open>Values\<close>

text \<open>
  Plain JavaScript values, as they are passed to a field write and as \<open>toObject()\<close> returns
  them. Numbers are the integers, with \<open>NaN\<close> apart: a number with a fractional part is no value
  of the model. A date is its time value in milliseconds, with the invalid date apart; an
  object is the list of its own enumerable keys in iteration order. A value carries no
  reference: two structural values are two objects.
\<close>

datatype jsval =
    Undefined
  | Null
  | Bool bool
  | Num int
  | NaN
  | Str string
  | Date int
  | InvalidDate
  | Arr "jsval list"
  | Obj "(string \<times> jsval) list"

text \<open>\<open>_.isObject\<close>, \<open>_.isArray\<close>, \<open>_.isDate\<close>, \<open>_.isString\<close>, \<open>_.isNumber\<close> of lodash.\<close>

fun isObject :: "jsval \<Rightarrow> bool" where
  "isObject (Date _) = True"
| "isObject InvalidDate = True"
| "isObject (Arr _) = True"
| "isObject (Obj _) = True"
| "isObject _ = False"

fun isArray :: "jsval \<Rightarrow> bool" where
  "isArray (Arr _) = True"
| "isArray _ = False"

fun isDate :: "jsval \<Rightarrow> bool" where
  "isDate (Date _) = True"
| "isDate InvalidDate = True"
| "isDate _ = False"

fun isString :: "jsval \<Rightarrow> bool" where
  "isString (Str _) = True"
| "isString _ = False"

fun isNumber :: "jsval \<Rightarrow> bool" where
  "isNumber (Num _) = True"
| "isNumber NaN = True"
| "isNumber _ = False"

subsection \<open>Number to string\<close>

definition digit_char :: "nat \<Rightarrow> char" where
  "digit_char d = ''0123456789'' ! d"

fun digits :: "nat \<Rightarrow> string" where
  "digits n = (if n < 10 then [digit_char n] else digits (n div 10) @ [digit_char (n mod 10)])"

declare digits.simps [simp del]

text \<open>\<open>n + ''\<close> for an integral number below \<open>10^21\<close> in magnitude: its decimal digits.\<close>

definition num_to_string :: "int \<Rightarrow> string" where
  "num_to_string n = (if n < 0 then CHR ''-'' # digits (nat (- n)) else digits (nat n))"

subsection \<open>Numeric reading of a value\<close>

text \<open>
  The schema options of a factory. \<open>parseNumeric\<close> and \<open>dateParse\<close> are not options of the
  library but the host's string readers, taken as parameters: \<open>parseNumeric s = Some n\<close> when
  \<open>isNumeric(s)\<close> holds and \<open>s * 1\<close> is \<open>n\<close>; \<open>dateParse s = Some t\<close> when \<open>Date.parse(s)\<close> is
  \<open>t\<close>, and \<open>None\<close> when it is \<open>NaN\<close>. The option \<open>dotNotation\<close> is left at its default
  (off).
\<close>

record options =
  strict :: bool
  setUndefined :: bool
  preserveNull :: bool
  keysIgnoreCase :: bool
  parseNumeric :: "string \<Rightarrow> int option"
  dateParse :: "string \<Rightarrow> int option"

text \<open>
  \<open>isNumeric(n)\<close> together with \<open>n * 1\<close>: \<open>None\<close> when \<open>isNumeric\<close> is false. A one-element
  array reads as its element does, through its string form.
\<close>

fun to_numeric :: "options \<Rightarrow> jsval \<Rightarrow> int option" where
  "to_numeric opts (Num n) = Some n"
| "to_numeric opts (Str s) = parseNumeric opts s"
| "to_numeric opts (Arr [Num n]) = Some n"
| "to_numeric opts (Arr [Str s]) = parseNumeric opts s"
| "to_numeric opts (Arr [Arr ys]) = to_numeric opts (Arr ys)"
| "to_numeric opts _ = None"

definition isNumeric :: "options \<Rightarrow> jsval \<Rightarrow> bool" where
  "isNumeric opts v = (to_numeric opts v \<noteq> None)"

text \<open>\<open>value + ''\<close> on a primitive that is neither \<open>undefined\<close> nor \<open>null\<close>.\<close>

fun prim_to_string :: "jsval \<Rightarrow> string" where
  "prim_to_string (Str s) = s"
| "prim_to_string (Num n) = num_to_string n"
| "prim_to_string NaN = ''NaN''"
| "prim_to_string (Bool b) = (if b then ''true'' else ''false'')"
| "prim_to_string _ = []"

text \<open>\<open>value ? true : false\<close>.\<close>

fun truthy :: "jsval \<Rightarrow> bool" where
  "truthy Undefined = False"
| "truthy Null = False"
| "truthy (Bool b) = b"
| "truthy (Num n) = (n \<noteq> 0)"
| "truthy NaN = False"
| "truthy (Str s) = (s \<noteq> [])"
| "truthy _ = True"

section \<open>Field specifications\<close>

datatype ftype = TString | TNumber | TBoolean | TArray | TObject | TDate | TAlias | TAny

text \<open>
  What a write can raise: a \<open>SetterError\<close> (message, rejected value, name of the field
  specification; the prior value it also carries is not modelled), a \<open>TypeError\<close> of the
  runtime, or whatever a default producer throws.
\<close>

datatype exn =
    SetterError string jsval "string option"
  | TypeError string
  | Thrown string

text \<open>A declared default: a literal, or a zero-argument producer, which returns or throws.\<close>

datatype dflt = DLit jsval | DFun "exn + jsval"

record props =
  ptype :: ftype
  pname :: "string option"
  minLength :: "nat option"
  maxLength :: "nat option"
  regex :: "(string \<Rightarrow> bool) option"
  penum :: "jsval list option"
  clip :: "bool option"
  pmin :: "int option"
  pmax :: "int option"
  pdefault :: "dflt option"
  readOnly :: bool
  invisible :: bool
  unique :: bool
  pindex :: string
  isAlias :: bool

text \<open>
  A normalized field specification: its properties, the factory of a nested schema
  (\<open>objectType\<close>) and the element specification of an array (\<open>arrayType\<close>). A property that
  the source tests against \<open>undefined\<close> is an option; \<open>clip\<close> is one of them, declared with a
  boolean. A factory is the identity of its schema object, its options and its schema, in the
  order in which the keys were written; the keys of a schema are distinct. User callbacks (\<open>transform\<close>, the type-specific
  transforms, \<open>getter\<close>, \<open>filter\<close>, \<open>onBeforeValueSet\<close>, \<open>onValueSet\<close>, the \<open>toObject\<close> option,
  custom constructors and methods) are arbitrary code and are left out: the embedding covers
  schemas declared without them.
\<close>

datatype fieldspec = FieldSpec (props: props) (objectType: "factory option") (arrayType: "fieldspec option")
  and factory = Factory (fid: nat) (foptions: options) (fschema: "(string \<times> fieldspec) list")

section \<open>Typecast of the primitive types\<close>

definition typecast_string :: "props \<Rightarrow> jsval \<Rightarrow> exn + jsval" where
  "typecast_string p v =
    (if isObject v \<or> isArray v then
       Inl (SetterError ''String type cannot typecast Object or Array types.'' v (pname p))
     else if v = Undefined \<or> v = Null then Inr Undefined
     else
       let s = prim_to_string v;
           s = (case maxLength p of Some n \<Rightarrow> if clip p \<noteq> None then take n s else s | None \<Rightarrow> s)
       in if (case penum p of Some es \<Rightarrow> Str s \<notin> set es | None \<Rightarrow> False) then
            Inl (SetterError ''String does not exist in enum list.'' (Str s) (pname p))
          else if (case minLength p of Some m \<Rightarrow> length s < m | None \<Rightarrow> False) then
            Inl (SetterError ''String length too short to meet minLength requirement.'' (Str s) (pname p))
          else if (case maxLength p of Some n \<Rightarrow> length s > n | None \<Rightarrow> False) then
            Inl (SetterError ''String length too long to meet maxLength requirement.'' (Str s) (pname p))
          else if (case regex p of Some r \<Rightarrow> \<not> r s | None \<Rightarrow> False) then
            Inl (SetterError ''String does not match regular expression pattern.'' (Str s) (pname p))
          else Inr (Str s))"

definition typecast_number :: "options \<Rightarrow> props \<Rightarrow> jsval \<Rightarrow> exn + jsval" where
  "typecast_number opts p v =
    (if v = Undefined \<or> v = Null \<or> v = Str [] then Inr Undefined
     else
       let v = (case v of Bool b \<Rightarrow> Num (if b then 1 else 0) | _ \<Rightarrow> v);
           v = (case v of Str s \<Rightarrow> Str (filter (\<lambda>c. c \<noteq> CHR '','') s) | _ \<Rightarrow> v)
       in if isArray v \<or> isObject v then
            Inl (SetterError ''Number type cannot typecast Array or Object types.'' v (pname p))
          else (case to_numeric opts v of
            None \<Rightarrow> Inl (SetterError ''Number type cannot typecast Array or Object types.'' v (pname p))
          | Some n \<Rightarrow>
              if (case pmin p of Some m \<Rightarrow> n < m | None \<Rightarrow> False) then
                Inl (SetterError ''Number is too small to meet min requirement.'' (Num n) (pname p))
              else if (case pmax p of Some m \<Rightarrow> n > m | None \<Rightarrow> False) then
                Inl (SetterError ''Number is too big to meet max requirement.'' (Num n) (pname p))
              else Inr (Num n)))"

definition typecast_boolean :: "options \<Rightarrow> props \<Rightarrow> jsval \<Rightarrow> exn + jsval" where
  "typecast_boolean opts p v =
    (if v = Undefined \<or> v = Null \<or> v = Str [] then Inr Undefined
     else if v = Str ''false'' then Inr (Bool False)
     else (case to_numeric opts v of
       Some n \<Rightarrow> Inr (Bool (n > 0))
     | None \<Rightarrow> Inr (Bool (truthy v))))"

text \<open>\<open>new Date(t)\<close>: a time value beyond 8.64e15 ms in magnitude gives the invalid date.\<close>

definition new_Date :: "int \<Rightarrow> jsval" where
  "new_Date t = (if \<bar>t\<bar> \<le> 8640000000000000 then Date t else InvalidDate)"

definition typecast_date :: "options \<Rightarrow> props \<Rightarrow> jsval \<Rightarrow> exn + jsval" where
  "typecast_date opts p v =
    (if v = Undefined \<or> v = Null \<or> v = Str [] then Inr Undefined
     else if \<not> isDate v \<and> \<not> isString v \<and> \<not> isNumber v then
       Inl (SetterError ''Date type cannot typecast Array or Object types.'' v (pname p))
     else
       let v = (case v of Str s \<Rightarrow> (case dateParse opts s of Some t \<Rightarrow> Num t | None \<Rightarrow> NaN) | _ \<Rightarrow> v);
           v = (case v of
                  Num n \<Rightarrow> new_Date (if length (num_to_string n) > 10 then n else n * 1000)
                | _ \<Rightarrow> v)
       in (case v of
             Date t \<Rightarrow> Inr (Date t)
           | _ \<Rightarrow> Inl (SetterError ''Could not parse date.'' v (pname p))))"

text \<open>The date case of the earlier \<open>setter\<close>: a rejected value is answered by the prior one.\<close>

definition setter_date :: "options \<Rightarrow> jsval \<Rightarrow> jsval \<Rightarrow> jsval" where
  "setter_date opts v orig =
    (if isObject v \<or> isArray v \<or> (case v of Bool _ \<Rightarrow> True | _ \<Rightarrow> False) then orig
     else
       let v = (case v of Str s \<Rightarrow> (case dateParse opts s of Some t \<Rightarrow> Num t | None \<Rightarrow> NaN) | _ \<Rightarrow> v);
           v = (case v of
                  Num n \<Rightarrow> new_Date (if n > 9999999999 then n else n * 1000)
                | NaN \<Rightarrow> InvalidDate
                | _ \<Rightarrow> v)
       in (case v of Date t \<Rightarrow> Date t | _ \<Rightarrow> orig))"

section \<open>A concrete host and concrete specifications\<close>

text \<open>
  For evaluating the model on concrete inputs: a host that reads a decimal integer, with an
  optional minus sign, and that parses no date string.
\<close>

definition digit_val :: "char \<Rightarrow> nat option" where
  "digit_val c = map_of (zip ''0123456789'' [0, 1, 2, 3, 4, 5, 6, 7, 8, 9]) c"

fun parse_nat :: "nat \<Rightarrow> string \<Rightarrow> nat option" where
  "parse_nat acc [] = Some acc"
| "parse_nat acc (c # cs) =
     (case digit_val c of None \<Rightarrow> None | Some d \<Rightarrow> parse_nat (10 * acc + d) cs)"

definition parse_int :: "string \<Rightarrow> int option" where
  "parse_int s =
    (case s of
       [] \<Rightarrow> None
     | c # cs \<Rightarrow>
         if c = CHR ''-'' then (if cs = [] then None else map_option (\<lambda>n. - int n) (parse_nat 0 cs))
         else map_option int (parse_nat 0 s))"

definition default_options :: options where
  "default_options =
    \<lparr>strict = True, setUndefined = False, preserveNull = False, keysIgnoreCase = False,
     parseNumeric = parse_int, dateParse = (\<lambda>s. None)\<rparr>"

definition base_props :: "ftype \<Rightarrow> string \<Rightarrow> props" where
  "base_props t n =
    \<lparr>ptype = t, pname = Some n, minLength = None, maxLength = None, regex = None, penum = None,
     clip = None, pmin = None, pmax = None, pdefault = None, readOnly = False, invisible = False,
     unique = False, pindex = [], isAlias = False\<rparr>"

section \<open>Instances\<close>

text \<open>
  What an instance stores under a field: a plain value, a \<open>SchemaArray\<close> container or a nested
  instance. A container and a nested instance carry the identity they got when they were
  created. An instance is its raw value store \<open>_obj\<close>, its error ledger \<open>_errors\<close>, the keys for
  which it has a getter and a setter, and the own properties written on it under keys for which
  it has none.
\<close>

datatype sval = Plain jsval | SArr nat "sval list" | SInst nat inst
  and inst = Inst (obj: "(string \<times> sval) list") (errors: "exn list")
                  (accessors: "string list") (own: "(string \<times> jsval) list")

definition set_obj :: "inst \<Rightarrow> (string \<times> sval) list \<Rightarrow> inst" where
  "set_obj I x = Inst x (errors I) (accessors I) (own I)"

definition set_own :: "inst \<Rightarrow> (string \<times> jsval) list \<Rightarrow> inst" where
  "set_own I x = Inst (obj I) (errors I) (accessors I) x"

definition add_accessor :: "inst \<Rightarrow> string \<Rightarrow> inst" where
  "add_accessor I k = Inst (obj I) (errors I) (accessors I @ [k]) (own I)"

text \<open>\<open>this[_privateKey]._errors.push(error)\<close>.\<close>

definition push_error :: "inst \<Rightarrow> exn \<Rightarrow> inst" where
  "push_error I e = Inst (obj I) (errors I @ [e]) (accessors I) (own I)"

text \<open>\<open>o[k] = v\<close> on a keyed store: a present key keeps its place, a new one goes last.\<close>

fun put :: "string \<Rightarrow> 'v \<Rightarrow> (string \<times> 'v) list \<Rightarrow> (string \<times> 'v) list" where
  "put k v [] = [(k, v)]"
| "put k v (e # es) = (if fst e = k then (k, v) # es else e # put k v es)"

text \<open>\<open>o[k]\<close> on the raw value store: an absent key reads \<open>undefined\<close>.\<close>

definition stored :: "inst \<Rightarrow> string \<Rightarrow> sval" where
  "stored I k = (case map_of (obj I) k of Some x \<Rightarrow> x | None \<Rightarrow> Plain Undefined)"

fun struthy :: "sval \<Rightarrow> bool" where
  "struthy (Plain v) = truthy v"
| "struthy _ = True"

text \<open>
  The shared state of the program: the keys that permissive writes have added to a schema
  object, each with the identity of that schema object, in the order of addition, and the next
  fresh identity of a container or of an instance.
\<close>

record world =
  dyn :: "(nat \<times> string) list"
  nextid :: nat

definition any_spec :: "string \<Rightarrow> fieldspec" where
  "any_spec k = FieldSpec (base_props TAny k) None None"

text \<open>\<open>normalizeProperties(properties, index)\<close> on a normalized specification: the name is set.\<close>

definition named :: "string \<Rightarrow> fieldspec \<Rightarrow> fieldspec" where
  "named k fs = FieldSpec ((props fs)\<lparr>pname := Some k\<rparr>) (objectType fs) (arrayType fs)"

text \<open>
  The own property \<open>k\<close> of the schema object: a declared field, or one added by
  \<open>addToSchema(k, {type: 'any'})\<close>.
\<close>

definition lookup_field :: "world \<Rightarrow> factory \<Rightarrow> string \<Rightarrow> fieldspec option" where
  "lookup_field W F k =
    (case map_of (fschema F) k of
       Some fs \<Rightarrow> Some (named k fs)
     | None \<Rightarrow> if (fid F, k) \<in> set (dyn W) then Some (any_spec k) else None)"

text \<open>
  The schema is a plain object, so \<open>schema[k]\<close> also finds what it inherits from
  \<open>Object.prototype\<close>: the set trap's test \<open>!schema[name]\<close> fails for a key of the schema and for
  each of these names.
\<close>

definition proto_keys :: "string list" where
  "proto_keys =
    [''constructor'', ''__defineGetter__'', ''__defineSetter__'', ''hasOwnProperty'',
     ''__lookupGetter__'', ''__lookupSetter__'', ''isPrototypeOf'', ''propertyIsEnumerable'',
     ''toString'', ''valueOf'', ''__proto__'', ''toLocaleString'']"

definition schema_has :: "world \<Rightarrow> factory \<Rightarrow> string \<Rightarrow> bool" where
  "schema_has W F k = (lookup_field W F k \<noteq> None \<or> k \<in> set proto_keys)"

text \<open>
  The order in which the keys of an object are enumerated: the keys that are array indices
  (the decimal form of a number below \<open>2^32 - 1\<close>) in ascending order, then the others in the
  order in which they were written.
\<close>

definition array_index :: "string \<Rightarrow> nat option" where
  "array_index k =
    (case parse_nat 0 k of
       Some n \<Rightarrow> if k \<noteq> [] \<and> digits n = k \<and> n < 4294967295 then Some n else None
     | None \<Rightarrow> None)"

definition key_order :: "string list \<Rightarrow> string list" where
  "key_order ks =
    sort_key (\<lambda>k. case array_index k of Some n \<Rightarrow> n | None \<Rightarrow> 0) (filter (\<lambda>k. array_index k \<noteq> None) ks)
    @ filter (\<lambda>k. array_index k = None) ks"

text \<open>The keys of the schema, in enumeration order.\<close>

definition schema_keys :: "world \<Rightarrow> factory \<Rightarrow> string list" where
  "schema_keys W F =
    key_order (map fst (fschema F) @
      filter (\<lambda>k. map_of (fschema F) k = None) (map snd (filter (\<lambda>e. fst e = fid F) (dyn W))))"

definition add_dyn :: "world \<Rightarrow> factory \<Rightarrow> string \<Rightarrow> world" where
  "add_dyn W F k = W\<lparr>dyn := dyn W @ [(fid F, k)]\<rparr>"

definition alloc :: "world \<Rightarrow> world" where
  "alloc W = W\<lparr>nextid := Suc (nextid W)\<rparr>"

text \<open>\<open>properties.default !== undefined\<close>, and the value the constructor and the getter take.\<close>

definition declared_default :: "props \<Rightarrow> dflt option" where
  "declared_default p = (case pdefault p of Some (DLit Undefined) \<Rightarrow> None | d \<Rightarrow> d)"

fun eval_default :: "dflt \<Rightarrow> exn + jsval" where
  "eval_default (DLit v) = Inr v"
| "eval_default (DFun r) = r"

text \<open>The key/value pairs a \<open>for ... in\<close> loop visits on a value.\<close>

fun index_keys :: "nat \<Rightarrow> 'a list \<Rightarrow> (string \<times> 'a) list" where
  "index_keys i [] = []"
| "index_keys i (x # xs) = (digits i, x) # index_keys (Suc i) xs"

fun entries :: "jsval \<Rightarrow> (string \<times> jsval) list" where
  "entries (Obj kvs) = kvs"
| "entries (Arr xs) = index_keys 0 xs"
| "entries (Str s) = index_keys 0 (map (\<lambda>c. Str [c]) s)"
| "entries _ = []"

text \<open>
  \<open>isArrayLike\<close> of lodash on a plain object: its \<open>length\<close> is a number that is a valid length.
  \<open>_.toArray(value)\<close> on a value for which \<open>_.isObject\<close> holds: an array-like object is copied
  index by index, any other object gives its values. \<open>_.size\<close> of a structural value.
\<close>

definition array_like :: "(string \<times> jsval) list \<Rightarrow> nat option" where
  "array_like kvs =
    (case map_of kvs ''length'' of
       Some (Num n) \<Rightarrow> if 0 \<le> n \<and> n \<le> 9007199254740991 then Some (nat n) else None
     | _ \<Rightarrow> None)"

fun toArray_value :: "jsval \<Rightarrow> jsval list" where
  "toArray_value (Arr xs) = xs"
| "toArray_value (Obj kvs) =
     (case array_like kvs of
        Some n \<Rightarrow> map (\<lambda>i. case map_of kvs (digits i) of Some v \<Rightarrow> v | None \<Rightarrow> Undefined) [0..<n]
      | None \<Rightarrow> map snd kvs)"
| "toArray_value _ = []"

fun size_value :: "jsval \<Rightarrow> nat" where
  "size_value (Arr xs) = length xs"
| "size_value (Obj kvs) = (case array_like kvs of Some n \<Rightarrow> n | None \<Rightarrow> length kvs)"
| "size_value (Str s) = length s"
| "size_value _ = 0"

text \<open>
  \<open>_.difference(values, _.toArray(this))\<close>: a value is dropped when the container holds the
  same value. Primitives are compared by value; a structural value is a fresh reference and is
  the same as none in the container.
\<close>

fun same_value :: "sval \<Rightarrow> sval \<Rightarrow> bool" where
  "same_value (Plain a) (Plain b) = (\<not> isObject a \<and> a = b)"
| "same_value _ _ = False"

definition difference :: "sval list \<Rightarrow> sval list \<Rightarrow> sval list" where
  "difference vals es = filter (\<lambda>v. \<not> list_ex (same_value v) es) vals"

text \<open>\<open>String.prototype.toLowerCase\<close> on the ASCII letters.\<close>

definition lower_char :: "char \<Rightarrow> char" where
  "lower_char c = (case map_of (zip ''ABCDEFGHIJKLMNOPQRSTUVWXYZ'' ''abcdefghijklmnopqrstuvwxyz'') c of
                     Some d \<Rightarrow> d | None \<Rightarrow> c)"

definition toLowerCase :: "string \<Rightarrow> string" where
  "toLowerCase s = map lower_char s"

text \<open>\<open>getIndex\<close>: the first key of the schema that equals the given one up to case.\<close>

definition getIndex :: "world \<Rightarrow> factory \<Rightarrow> string \<Rightarrow> string" where
  "getIndex W F k =
    (case filter (\<lambda>key. toLowerCase key = toLowerCase k) (schema_keys W F) of
       [] \<Rightarrow> k | key # _ \<Rightarrow> key)"

text \<open>The nesting depth of a specification and of a factory.\<close>

fun sdepth :: "fieldspec \<Rightarrow> nat" and fdepth :: "factory \<Rightarrow> nat" where
  "sdepth (FieldSpec pr ot at) =
     max (case ot of None \<Rightarrow> 0 | Some F \<Rightarrow> Suc (fdepth F))
         (case at of None \<Rightarrow> 0 | Some T \<Rightarrow> Suc (sdepth T))"
| "fdepth (Factory i opts sch) = Suc (fold max (map (\<lambda>e. sdepth (snd e)) sch) 0)"

subsection \<open>Depth bounds\<close>

lemma fold_max_ge: "x \<in> set xs \<Longrightarrow> (x::nat) \<le> fold max xs a"
proof (induction xs arbitrary: a)
  case Nil then show ?case by simp
next
  case (Cons y ys)
  have mono: "a \<le> fold max ys a" for a :: nat
  proof (induction ys arbitrary: a)
    case Nil then show ?case by simp
  next
    case (Cons z zs)
    have "a \<le> max z a" by simp
    also have "max z a \<le> fold max zs (max z a)" by (rule Cons.IH)
    finally show ?case by simp
  qed
  show ?case
  proof (cases "x = y")
    case True
    have "y \<le> max y a" by simp
    also have "max y a \<le> fold max ys (max y a)" by (rule mono)
    finally show ?thesis using True by simp
  next
    case False
    with Cons.prems have "x \<in> set ys" by simp
    then show ?thesis using Cons.IH by simp
  qed
qed

lemma sdepth_named [simp]: "sdepth (named k fs) = sdepth fs"
  by (cases fs) (simp add: named_def)

lemma sdepth_any_spec [simp]: "sdepth (any_spec k) = 0"
  by (simp add: any_spec_def)

lemma lookup_field_depth: "lookup_field W F k = Some fs \<Longrightarrow> sdepth fs < fdepth F"
proof (cases F)
  case (Factory i opts sch)
  assume a: "lookup_field W F k = Some fs"
  show ?thesis
  proof (cases "map_of sch k")
    case None
    with a Factory show ?thesis by (auto simp: lookup_field_def split: if_splits)
  next
    case (Some gs)
    then have "(k, gs) \<in> set sch" by (rule map_of_SomeD)
    then have "sdepth gs \<in> set (map (\<lambda>e. sdepth (snd e)) sch)" by force
    then have "sdepth gs \<le> fold max (map (\<lambda>e. sdepth (snd e)) sch) 0" by (rule fold_max_ge)
    with a Factory Some show ?thesis by (auto simp: lookup_field_def)
  qed
qed

lemma objectType_depth: "objectType fs = Some F \<Longrightarrow> fdepth F < sdepth fs"
  by (cases fs) auto

lemma arrayType_depth: "arrayType fs = Some T \<Longrightarrow> sdepth T < sdepth fs"
  by (cases fs) auto

lemma lookup_object_depth:
  "lookup_field W F k = Some fs \<Longrightarrow> objectType fs = Some F' \<Longrightarrow> fdepth F' < fdepth F"
  using lookup_field_depth [of W F k fs] objectType_depth [of fs F'] by simp

section \<open>The typecast and the field access layer\<close>

text \<open>
  The operations below call one another, as the source's do. Each takes the shared state
  and returns it updated; those that work on an instance take and return the instance too.
  An operation that can throw returns the exception as \<open>Inl\<close>, next to the state reached when
  it was thrown. \<open>typecast\<close> mutates its \<open>originalValue\<close> in place in the array and object
  cases, so it returns that value as well; the setter stores it back under its key.

  The set trap tests \<open>schema[name]\<close>, which also finds the names the schema inherits from
  \<open>Object.prototype\<close>: a write under such a name that the schema does not declare goes to the
  instance as an own property. Under \<open>__proto__\<close> it sets the prototype instead, which is no part
  of the state, and leaves the state as it is. A property of the instance that shadows one of
  its methods (\<open>toObject\<close>, \<open>clear\<close>, \<open>getErrors\<close>, \<open>__defineGetter__\<close> and the like) makes a later
  call of that method fail; the operations below are those of an instance whose methods are
  not shadowed.

  A write to an alias goes on to the setter of the aliased field. The natural number passed
  to \<open>setter\<close> and \<open>pset\<close> bounds the length of such a chain of aliases by the number of keys of
  the schema; a longer chain is a cycle, on which the source recurses until the stack is
  exhausted, and the model records that error in the ledger.
\<close>

function
  typecast :: "world \<Rightarrow> options \<Rightarrow> fieldspec \<Rightarrow> jsval \<Rightarrow> sval \<Rightarrow> world \<times> sval \<times> (exn + sval)"
and typecast_all :: "world \<Rightarrow> options \<Rightarrow> fieldspec \<Rightarrow> jsval list \<Rightarrow> world \<times> (exn + sval list)"
and push :: "world \<Rightarrow> options \<Rightarrow> fieldspec \<Rightarrow> sval list \<Rightarrow> jsval list \<Rightarrow> world \<times> sval list \<times> (exn + unit)"
and push_each :: "world \<Rightarrow> options \<Rightarrow> fieldspec \<Rightarrow> sval list \<Rightarrow> jsval list \<Rightarrow> world \<times> sval list \<times> (exn + unit)"
and pget :: "world \<Rightarrow> factory \<Rightarrow> inst \<Rightarrow> string \<Rightarrow> world \<times> inst \<times> (exn + sval)"
and setter :: "nat \<Rightarrow> bool \<Rightarrow> world \<Rightarrow> factory \<Rightarrow> inst \<Rightarrow> string \<Rightarrow> jsval \<Rightarrow> world \<times> inst"
and pset :: "nat \<Rightarrow> world \<Rightarrow> factory \<Rightarrow> inst \<Rightarrow> string \<Rightarrow> jsval \<Rightarrow> world \<times> inst"
and set_each :: "world \<Rightarrow> factory \<Rightarrow> inst \<Rightarrow> (string \<times> jsval) list \<Rightarrow> world \<times> inst"
and clearField :: "world \<Rightarrow> factory \<Rightarrow> inst \<Rightarrow> string \<Rightarrow> world \<times> inst \<times> (exn + unit)"
and clear_fields :: "world \<Rightarrow> factory \<Rightarrow> inst \<Rightarrow> string list \<Rightarrow> world \<times> inst \<times> (exn + unit)"
and apply_defaults :: "world \<Rightarrow> factory \<Rightarrow> inst \<Rightarrow> string list \<Rightarrow> world \<times> inst \<times> (exn + unit)"
and construct :: "world \<Rightarrow> factory \<Rightarrow> jsval \<Rightarrow> world \<times> (exn + inst)"
where
  "typecast W opts fs v orig =
    (if v = Null \<and> preserveNull opts then (W, orig, Inr (Plain Null))
     else (case ptype (props fs) of
       TString \<Rightarrow> (W, orig, map_sum id Plain (typecast_string (props fs) v))
     | TNumber \<Rightarrow> (W, orig, map_sum id Plain (typecast_number opts (props fs) v))
     | TBoolean \<Rightarrow> (W, orig, map_sum id Plain (typecast_boolean opts (props fs) v))
     | TArray \<Rightarrow>
         (if \<not> isObject v then
            (W, orig, Inl (SetterError ''Array type cannot typecast non-Array types.'' v (pname (props fs))))
          else (case orig of
            SArr i es \<Rightarrow>
              (case push_each W opts fs [] (toArray_value v) of
                 (W1, es1, Inl e) \<Rightarrow> (W1, SArr i es1, Inl e)
               | (W1, es1, Inr u) \<Rightarrow> (W1, SArr i es1, Inr (SArr i es1)))
          | _ \<Rightarrow> (W, orig, Inl (TypeError ''Cannot set property length''))))
     | TObject \<Rightarrow>
         (if \<not> isObject v then
            (W, orig, Inl (SetterError ''Object type cannot typecast non-Object types.'' v (pname (props fs))))
          else (case objectType fs of
            None \<Rightarrow> (W, orig, Inr (Plain v))
          | Some F \<Rightarrow>
              (case orig of
                 Plain Undefined \<Rightarrow>
                   (case construct (alloc W) F (Obj []) of
                      (W1, Inl e) \<Rightarrow> (W1, orig, Inl e)
                    | (W1, Inr I) \<Rightarrow>
                        (case set_each W1 F I (entries v) of
                           (W2, I2) \<Rightarrow> (W2, orig, Inr (SInst (nextid W) I2))))
               | SInst i I \<Rightarrow>
                   (case clear_fields W F I (schema_keys W F) of
                      (W1, I1, Inl e) \<Rightarrow> (W1, SInst i I1, Inl e)
                    | (W1, I1, Inr u) \<Rightarrow>
                        (case set_each W1 F I1 (entries v) of
                           (W2, I2) \<Rightarrow> (W2, SInst i I2, Inr (SInst i I2))))
               | _ \<Rightarrow> (W, orig, Inl (TypeError ''schemaObject.clear is not a function'')))))
     | TDate \<Rightarrow> (W, orig, map_sum id Plain (typecast_date opts (props fs) v))
     | _ \<Rightarrow> (W, orig, Inr (Plain v))))"
| "typecast_all W opts T [] = (W, Inr [])"
| "typecast_all W opts T (x # xs) =
    (case typecast W opts T x (Plain Undefined) of
       (W1, orig, Inl e) \<Rightarrow> (W1, Inl e)
     | (W1, orig, Inr y) \<Rightarrow>
         (case typecast_all W1 opts T xs of
            (W2, Inl e) \<Rightarrow> (W2, Inl e)
          | (W2, Inr ys) \<Rightarrow> (W2, Inr (y # ys))))"
| "push W opts fs es args =
    (case (case arrayType fs of
             None \<Rightarrow> (W, Inr (map Plain args))
           | Some T \<Rightarrow> typecast_all W opts T args) of
       (W1, Inl e) \<Rightarrow> (W1, es, Inl e)
     | (W1, Inr vals) \<Rightarrow>
         (W1, es @ (if unique (props fs) then difference vals es else vals), Inr ()))"
| "push_each W opts fs es [] = (W, es, Inr ())"
| "push_each W opts fs es (x # xs) =
    (case push W opts fs es [x] of
       (W1, es1, Inl e) \<Rightarrow> (W1, es1, Inl e)
     | (W1, es1, Inr u) \<Rightarrow> push_each W1 opts fs es1 xs)"
| "pget W F I k =
    (if k \<notin> set (accessors I) then
       (W, I, Inr (Plain (case map_of (own I) k of Some v \<Rightarrow> v | None \<Rightarrow> Undefined)))
     else (case lookup_field W F k of
       None \<Rightarrow> (W, I, Inr (Plain Undefined))
     | Some fs \<Rightarrow>
         let ioa = (if ptype (props fs) = TAlias then pindex (props fs) else k) in
         if \<not> struthy (stored I ioa) \<and> ptype (props fs) = TObject then
           (case declared_default (props fs) of
              Some d \<Rightarrow>
                (case eval_default d of
                   Inl e \<Rightarrow> (W, I, Inl e)
                 | Inr dv \<Rightarrow> (W, set_obj I (put k (Plain dv) (obj I)), Inr (Plain dv)))
            | None \<Rightarrow>
                (case objectType fs of
                   None \<Rightarrow> (W, set_obj I (put k (Plain (Obj [])) (obj I)), Inr (Plain (Obj [])))
                 | Some F' \<Rightarrow>
                     (case construct (alloc W) F' (Obj []) of
                        (W1, Inl e) \<Rightarrow> (W1, I, Inl e)
                      | (W1, Inr I') \<Rightarrow>
                          (W1, set_obj I (put k (SInst (nextid W) I') (obj I)),
                           Inr (SInst (nextid W) I')))))
         else if \<not> struthy (stored I ioa) \<and> ptype (props fs) = TArray then
           (alloc W, set_obj I (put k (SArr (nextid W) []) (obj I)), Inr (SArr (nextid W) []))
         else (W, I, Inr (stored I ioa))))"
| "setter n lift W F I k v =
    (case lookup_field W F k of
       None \<Rightarrow> (W, I)
     | Some fs \<Rightarrow>
         if readOnly (props fs) \<and> \<not> lift then (W, I)
         else (case pget W F I k of
           (W1, I1, Inl e) \<Rightarrow> (W1, push_error I1 e)
         | (W1, I1, Inr orig) \<Rightarrow>
             (case typecast W1 (foptions F) fs v orig of
                (W2, orig', r) \<Rightarrow>
                  let ioa = (if ptype (props fs) = TAlias then pindex (props fs) else k);
                      I2 = (case orig' of Plain y \<Rightarrow> I1 | _ \<Rightarrow> set_obj I1 (put ioa orig' (obj I1)))
                  in (case r of
                       Inl e \<Rightarrow> (W2, push_error I2 e)
                     | Inr x \<Rightarrow>
                         if ptype (props fs) = TAlias then
                           (case n of
                              0 \<Rightarrow> (W2, push_error I2 (TypeError ''Maximum call stack size exceeded''))
                            | Suc m \<Rightarrow>
                                (case x of
                                   Plain y \<Rightarrow> pset m W2 F I2 (pindex (props fs)) y
                                 | _ \<Rightarrow> (W2, I2)))
                         else (W2, set_obj I2 (put k x (obj I2)))))))"
| "pset n W F I name v =
    (let name = (if keysIgnoreCase (foptions F) \<and> \<not> schema_has W F name
                 then getIndex W F name else name)
     in if \<not> schema_has W F name then
          (if strict (foptions F) then (W, I)
           else setter n False (add_dyn W F name) F (add_accessor I name) name v)
        else if name \<in> set (accessors I) then setter n False W F I name v
        else if name = ''__proto__'' then (W, I)
        else (W, set_own I (put name v (own I))))"
| "set_each W F I [] = (W, I)"
| "set_each W F I (e # es) =
    (case pset (length (schema_keys W F)) W F I (fst e) (snd e) of
       (W1, I1) \<Rightarrow> set_each W1 F I1 es)"
| "clearField W F I k =
    (case lookup_field W F k of
       None \<Rightarrow> (W, I, Inr ())
     | Some fs \<Rightarrow>
         if isAlias (props fs) then (W, I, Inr ())
         else if ptype (props fs) = TObject then
           (case pget W F I k of
              (W1, I1, Inl e) \<Rightarrow> (W1, I1, Inl e)
            | (W1, I1, Inr x) \<Rightarrow>
                (case x of
                   SInst i I' \<Rightarrow>
                     (case objectType fs of
                        None \<Rightarrow> (W1, I1, Inl (TypeError ''clear is not a function''))
                      | Some F' \<Rightarrow>
                          (case clear_fields W1 F' I' (schema_keys W1 F') of
                             (W2, I2, r) \<Rightarrow> (W2, set_obj I1 (put k (SInst i I2) (obj I1)), r)))
                 | _ \<Rightarrow> (W1, I1, Inl (TypeError ''clear is not a function''))))
         else if ptype (props fs) = TArray then
           (case pget W F I k of
              (W1, I1, Inl e) \<Rightarrow> (W1, I1, Inl e)
            | (W1, I1, Inr x) \<Rightarrow>
                (case x of
                   SArr i es \<Rightarrow> (W1, set_obj I1 (put k (SArr i []) (obj I1)), Inr ())
                 | _ \<Rightarrow> (W1, I1, Inl (TypeError ''Cannot set property length''))))
         else if ptype (props fs) = TAlias then
           (case pset (length (schema_keys W F)) W F I (pindex (props fs)) Undefined of
              (W1, I1) \<Rightarrow> (W1, I1, Inr ()))
         else (W, set_obj I (put k (Plain Undefined) (obj I)), Inr ()))"
| "clear_fields W F I [] = (W, I, Inr ())"
| "clear_fields W F I (k # ks) =
    (case clearField W F I k of
       (W1, I1, Inl e) \<Rightarrow> (W1, I1, Inl e)
     | (W1, I1, Inr u) \<Rightarrow> clear_fields W1 F I1 ks)"
| "apply_defaults W F I [] = (W, I, Inr ())"
| "apply_defaults W F I (k # ks) =
    (case lookup_field W F k of
       None \<Rightarrow> apply_defaults W F I ks
     | Some fs \<Rightarrow>
         (case declared_default (props fs) of
            None \<Rightarrow> apply_defaults W F I ks
          | Some d \<Rightarrow>
              (case eval_default d of
                 Inl e \<Rightarrow> (W, I, Inl e)
               | Inr dv \<Rightarrow>
                   (case setter (length (schema_keys W F)) True W F I k dv of
                      (W1, I1) \<Rightarrow> apply_defaults W1 F I1 ks))))"
| "construct W F vals =
    (case apply_defaults W F (Inst [] [] (schema_keys W F) []) (schema_keys W F) of
       (W1, I1, Inl e) \<Rightarrow> (W1, Inl e)
     | (W1, I1, Inr u) \<Rightarrow>
         (case set_each W1 F I1 (entries vals) of
            (W2, I2) \<Rightarrow> (W2, Inr I2)))"
  by pat_completeness auto

termination
  apply (relation "inv_image (less_than <*lex*> less_than <*lex*> less_than <*lex*> less_than)
    (case_sum
      (case_sum
        (case_sum (\<lambda>(W, opts, fs, v, orig). (sdepth fs, 2::nat, 0::nat, 0::nat))
          (case_sum (\<lambda>(W, opts, T, xs). (sdepth T, 3, 0, length xs))
                    (\<lambda>(W, opts, fs, es, args). (sdepth fs, 0, 0, 0))))
        (case_sum (\<lambda>(W, opts, fs, es, xs). (sdepth fs, 1, 0, length xs))
          (case_sum (\<lambda>(W, F, I, k). (fdepth F, 0, 0, 0))
                    (\<lambda>(n, lift, W, F, I, k, v). (fdepth F, 1, n, 0)))))
      (case_sum
        (case_sum (\<lambda>(n, W, F, I, name, v). (fdepth F, 1, n, 1))
          (case_sum (\<lambda>(W, F, I, es). (fdepth F, 2, 0, length es))
                    (\<lambda>(W, F, I, k). (fdepth F, 2, 0, 0))))
        (case_sum (\<lambda>(W, F, I, ks). (fdepth F, 3, 0, length ks))
          (case_sum (\<lambda>(W, F, I, ks). (fdepth F, 3, 0, length ks))
                    (\<lambda>(W, F, vals). (fdepth F, 4, 0, 0))))))")
  apply (simp_all add: lookup_field_depth objectType_depth arrayType_depth)
  apply (auto dest: lookup_field_depth objectType_depth arrayType_depth lookup_object_depth)
  done

declare typecast.simps [simp del] push.simps [simp del] pget.simps [simp del]
  setter.simps [simp del] pset.simps [simp del] clearField.simps [simp del]
  construct.simps [simp del]

text \<open>The instance surface: the constructor of the root, a write through the proxy, \<open>clear()\<close>.\<close>

definition assign :: "world \<Rightarrow> factory \<Rightarrow> inst \<Rightarrow> string \<Rightarrow> jsval \<Rightarrow> world \<times> inst" where
  "assign W F I k v = pset (length (schema_keys W F)) W F I k v"

definition clear :: "world \<Rightarrow> factory \<Rightarrow> inst \<Rightarrow> world \<times> inst \<times> (exn + unit)" where
  "clear W F I = clear_fields W F I (schema_keys W F)"

section \<open>Output projection\<close>

text \<open>
  The place a value read under a key is stored at: the raw value store for a key with
  accessors (under the aliased key for an alias), the own properties otherwise.
\<close>

definition store_back :: "inst \<Rightarrow> string \<Rightarrow> fieldspec \<Rightarrow> sval \<Rightarrow> inst" where
  "store_back I k fs x =
    (if k \<in> set (accessors I) then
       set_obj I (put (if ptype (props fs) = TAlias then pindex (props fs) else k) x (obj I))
     else (case x of Plain v \<Rightarrow> set_own I (put k v (own I)) | _ \<Rightarrow> I))"

lemma array_object_depth:
  "arrayType fs = Some T \<Longrightarrow> objectType T = Some F \<Longrightarrow> fdepth F < sdepth fs"
  using arrayType_depth [of fs T] objectType_depth [of T F] by simp

function
  toObject :: "world \<Rightarrow> factory \<Rightarrow> inst \<Rightarrow> world \<times> inst \<times> (exn + jsval)"
and toObject_fields :: "world \<Rightarrow> factory \<Rightarrow> inst \<Rightarrow> string list \<Rightarrow> (string \<times> jsval) list
      \<Rightarrow> world \<times> inst \<times> (exn + jsval)"
and toArray :: "world \<Rightarrow> fieldspec \<Rightarrow> sval list \<Rightarrow> world \<times> sval list \<times> (exn + jsval list)"
where
  "toObject W F I = toObject_fields W F I (schema_keys W F) []"
| "toObject_fields W F I [] getObj = (W, I, Inr (Obj getObj))"
| "toObject_fields W F I (k # ks) getObj =
    (case lookup_field W F k of
       None \<Rightarrow> toObject_fields W F I ks getObj
     | Some fs \<Rightarrow>
         if invisible (props fs) then toObject_fields W F I ks getObj
         else (case pget W F I k of
           (W1, I1, Inl e) \<Rightarrow> (W1, I1, Inl e)
         | (W1, I1, Inr value) \<Rightarrow>
             if value = Plain Undefined \<and> \<not> setUndefined (foptions F) then
               toObject_fields W1 F I1 ks getObj
             else (case value of
               SInst i I' \<Rightarrow>
                 (case objectType fs of
                    None \<Rightarrow> (W1, I1, Inl (TypeError ''toObject is not a function''))
                  | Some F' \<Rightarrow>
                      (case toObject W1 F' I' of
                         (W2, I2, Inl e) \<Rightarrow> (W2, store_back I1 k fs (SInst i I2), Inl e)
                       | (W2, I2, Inr ov) \<Rightarrow>
                           toObject_fields W2 F (store_back I1 k fs (SInst i I2)) ks
                             (if \<not> setUndefined (foptions F) \<and> size_value ov = 0 then getObj
                              else put k ov getObj)))
             | SArr i es \<Rightarrow>
                 (case toArray W1 fs es of
                    (W2, es2, Inl e) \<Rightarrow> (W2, store_back I1 k fs (SArr i es2), Inl e)
                  | (W2, es2, Inr vs) \<Rightarrow>
                      toObject_fields W2 F (store_back I1 k fs (SArr i es2)) ks
                        (if \<not> setUndefined (foptions F) \<and> vs = [] then getObj
                         else put k (Arr vs) getObj))
             | Plain v \<Rightarrow>
                 (case v of
                    Arr xs \<Rightarrow>
                      toObject_fields W1 F (store_back I1 k fs (Plain (Arr []))) ks
                        (if \<not> setUndefined (foptions F) \<and> xs = [] then getObj
                         else put k (Arr xs) getObj)
                  | Obj kvs \<Rightarrow>
                      toObject_fields W1 F I1 ks
                        (if \<not> setUndefined (foptions F) \<and> size_value (Obj kvs) = 0 then getObj
                         else put k (Obj kvs) getObj)
                  | _ \<Rightarrow> toObject_fields W1 F I1 ks (put k v getObj)))))"
| "toArray W fs [] = (W, [], Inr [])"
| "toArray W fs (x # xs) =
    (case (case x of
             SInst i I' \<Rightarrow>
               (case arrayType fs of
                  None \<Rightarrow> (W, x, Inl (TypeError ''toObject is not a function''))
                | Some T \<Rightarrow>
                    (case objectType T of
                       None \<Rightarrow> (W, x, Inl (TypeError ''toObject is not a function''))
                     | Some F' \<Rightarrow>
                         (case toObject W F' I' of
                            (W1, I1, r) \<Rightarrow> (W1, SInst i I1, r))))
           | SArr i es \<Rightarrow> (W, x, Inr (Arr []))
           | Plain v \<Rightarrow> (W, x, Inr v)) of
       (W1, x1, Inl e) \<Rightarrow> (W1, x1 # xs, Inl e)
     | (W1, x1, Inr y) \<Rightarrow>
         (case toArray W1 fs xs of
            (W2, xs2, Inl e) \<Rightarrow> (W2, x1 # xs2, Inl e)
          | (W2, xs2, Inr ys) \<Rightarrow> (W2, x1 # xs2, Inr (y # ys))))"
  by pat_completeness auto
termination
  apply (relation "inv_image (less_than <*lex*> less_than <*lex*> less_than)
    (case_sum (\<lambda>(W, F, I). (fdepth F, 1::nat, 0::nat))
      (case_sum (\<lambda>(W, F, I, ks, getObj). (fdepth F, 0, length ks))
                (\<lambda>(W, fs, xs). (sdepth fs, 0, length xs))))")
  apply (simp_all add: lookup_field_depth objectType_depth arrayType_depth)
  apply (auto dest: lookup_field_depth objectType_depth arrayType_depth lookup_object_depth array_object_depth)
  done

declare toObject.simps [simp del]

section \<open>The error ledger\<close>

text \<open>
  \<open>subError.fieldSchema.name = `${name}.${subError.fieldSchema.name}`\<close>. An entry of a nested
  ledger that is no \<open>SetterError\<close> has no \<open>fieldSchema\<close>, and the assignment throws.
\<close>

fun qualify :: "string \<Rightarrow> exn \<Rightarrow> exn + exn" where
  "qualify name (SetterError m v n) =
     Inr (SetterError m v (Some (name @ ''.'' @ (case n of Some s \<Rightarrow> s | None \<Rightarrow> ''undefined''))))"
| "qualify name e = Inl (TypeError ''Cannot read property name of undefined'')"

fun qualify_all :: "string \<Rightarrow> exn list \<Rightarrow> exn + exn list" where
  "qualify_all name [] = Inr []"
| "qualify_all name (e # es) =
     (case qualify name e of
        Inl x \<Rightarrow> Inl x
      | Inr e' \<Rightarrow> (case qualify_all name es of Inl x \<Rightarrow> Inl x | Inr es' \<Rightarrow> Inr (e' # es')))"

function
  getErrors :: "world \<Rightarrow> factory \<Rightarrow> inst \<Rightarrow> world \<times> inst \<times> (exn + exn list)"
and sub_errors :: "world \<Rightarrow> factory \<Rightarrow> inst \<Rightarrow> string list \<Rightarrow> exn list
      \<Rightarrow> world \<times> inst \<times> (exn + exn list)"
where
  "getErrors W F I = sub_errors W F I (schema_keys W F) (errors I)"
| "sub_errors W F I [] acc = (W, I, Inr acc)"
| "sub_errors W F I (name # ks) acc =
    (case lookup_field W F name of
       None \<Rightarrow> sub_errors W F I ks acc
     | Some fs \<Rightarrow>
         (case objectType fs of
            None \<Rightarrow> sub_errors W F I ks acc
          | Some F' \<Rightarrow>
              if ptype (props fs) \<noteq> TObject then sub_errors W F I ks acc
              else (case pget W F I name of
                (W1, I1, Inl e) \<Rightarrow> (W1, I1, Inl e)
              | (W1, I1, Inr x) \<Rightarrow>
                  (case x of
                     SInst i I' \<Rightarrow>
                       (case getErrors W1 F' I' of
                          (W2, I2, Inl e) \<Rightarrow> (W2, store_back I1 name fs (SInst i I2), Inl e)
                        | (W2, I2, Inr subErrors) \<Rightarrow>
                            (case qualify_all name subErrors of
                               Inl e \<Rightarrow> (W2, store_back I1 name fs (SInst i I2), Inl e)
                             | Inr qs \<Rightarrow>
                                 sub_errors W2 F (store_back I1 name fs (SInst i I2)) ks (acc @ qs)))
                   | _ \<Rightarrow> (W1, I1, Inl (TypeError ''getErrors is not a function''))))))"
  by pat_completeness auto
termination
  apply (relation "inv_image (less_than <*lex*> less_than <*lex*> less_than)
    (case_sum (\<lambda>(W, F, I). (fdepth F, 1::nat, 0::nat))
              (\<lambda>(W, F, I, ks, acc). (fdepth F, 0, length ks)))")
  apply (simp_all add: lookup_field_depth objectType_depth arrayType_depth)
  apply (auto dest: lookup_field_depth objectType_depth arrayType_depth lookup_object_depth)
  done

declare getErrors.simps [simp del]

text \<open>\<open>isErrors()\<close>: \<open>this.getErrors().length > 0\<close>.\<close>

definition isErrors :: "world \<Rightarrow> factory \<Rightarrow> inst \<Rightarrow> world \<times> inst \<times> (exn + bool)" where
  "isErrors W F I =
    (case getErrors W F I of
       (W1, I1, Inl e) \<Rightarrow> (W1, I1, Inl e)
     | (W1, I1, Inr es) \<Rightarrow> (W1, I1, Inr (length es > 0)))"

text \<open>\<open>clearErrors()\<close>: the own ledger is emptied, then that of every nested schema-typed field.\<close>

function
  clearErrors :: "world \<Rightarrow> factory \<Rightarrow> inst \<Rightarrow> world \<times> inst \<times> (exn + unit)"
and clear_sub_errors :: "world \<Rightarrow> factory \<Rightarrow> inst \<Rightarrow> string list \<Rightarrow> world \<times> inst \<times> (exn + unit)"
where
  "clearErrors W F I =
     clear_sub_errors W F (Inst (obj I) [] (accessors I) (own I)) (schema_keys W F)"
| "clear_sub_errors W F I [] = (W, I, Inr ())"
| "clear_sub_errors W F I (name # ks) =
    (case lookup_field W F name of
       None \<Rightarrow> clear_sub_errors W F I ks
     | Some fs \<Rightarrow>
         (case objectType fs of
            None \<Rightarrow> clear_sub_errors W F I ks
          | Some F' \<Rightarrow>
              if ptype (props fs) \<noteq> TObject then clear_sub_errors W F I ks
              else (case pget W F I name of
                (W1, I1, Inl e) \<Rightarrow> (W1, I1, Inl e)
              | (W1, I1, Inr x) \<Rightarrow>
                  (case x of
                     SInst i I' \<Rightarrow>
                       (case clearErrors W1 F' I' of
                          (W2, I2, Inl e) \<Rightarrow> (W2, store_back I1 name fs (SInst i I2), Inl e)
                        | (W2, I2, Inr u) \<Rightarrow>
                            clear_sub_errors W2 F (store_back I1 name fs (SInst i I2)) ks)
                   | _ \<Rightarrow> (W1, I1, Inl (TypeError ''clearErrors is not a function''))))))"
  by pat_completeness auto
termination
  apply (relation "inv_image (less_than <*lex*> less_than <*lex*> less_than)
    (case_sum (\<lambda>(W, F, I). (fdepth F, 1::nat, 0::nat))
              (\<lambda>(W, F, I, ks). (fdepth F, 0, length ks)))")
  apply (simp_all add: lookup_field_depth objectType_depth arrayType_depth)
  apply (auto dest: lookup_field_depth objectType_depth arrayType_depth lookup_object_depth)
  done

declare clearErrors.simps [simp del]

subsection \<open>What the ledger operations compute\<close>

text \<open>
  The factory of a nested schema-typed field: \<open>field.type === 'object' && typeof
  field.objectType === 'function'\<close>.
\<close>

definition nested_factory :: "world \<Rightarrow> factory \<Rightarrow> string \<Rightarrow> factory option" where
  "nested_factory W F k =
    (case lookup_field W F k of
       None \<Rightarrow> None
     | Some fs \<Rightarrow> if ptype (props fs) = TObject then objectType fs else None)"

lemma nested_factory_depth: "nested_factory W F k = Some F' \<Longrightarrow> fdepth F' < fdepth F"
  by (auto simp: nested_factory_def split: option.splits if_splits dest: lookup_object_depth)

text \<open>
  An instance is materialized when the keys of its schema are distinct, as the keys of an
  object are, and every nested schema-typed field holds its instance, which is materialized in
  turn: no read of such a field has an instance to create.
\<close>

function
  materialized :: "world \<Rightarrow> factory \<Rightarrow> inst \<Rightarrow> bool"
and materialized_fields :: "world \<Rightarrow> factory \<Rightarrow> inst \<Rightarrow> string list \<Rightarrow> bool"
where
  "materialized W F I = (distinct (schema_keys W F) \<and> materialized_fields W F I (schema_keys W F))"
| "materialized_fields W F I [] = True"
| "materialized_fields W F I (k # ks) =
    (case nested_factory W F k of
       None \<Rightarrow> materialized_fields W F I ks
     | Some F' \<Rightarrow>
         (case stored I k of
            SInst i J \<Rightarrow> k \<in> set (accessors I) \<and> materialized W F' J \<and> materialized_fields W F I ks
          | _ \<Rightarrow> False))"
  by pat_completeness auto
termination
  apply (relation "inv_image (less_than <*lex*> less_than <*lex*> less_than)
    (case_sum (\<lambda>(W, F, I). (fdepth F, 1::nat, 0::nat))
              (\<lambda>(W, F, I, ks). (fdepth F, 0, length ks)))")
  apply (auto dest: nested_factory_depth)
  done

declare materialized.simps [simp del]

text \<open>
  The ledger of an instance, in the words of the specification: its own entries, followed for
  each nested schema-typed field, in key order, by the ledger of the nested instance, each
  entry with its field name qualified by the name of the field.
\<close>

function
  ledger :: "world \<Rightarrow> factory \<Rightarrow> inst \<Rightarrow> exn + exn list"
and nested_ledgers :: "world \<Rightarrow> factory \<Rightarrow> inst \<Rightarrow> string list \<Rightarrow> exn + exn list"
where
  "ledger W F I =
    (case nested_ledgers W F I (schema_keys W F) of
       Inl e \<Rightarrow> Inl e
     | Inr qs \<Rightarrow> Inr (errors I @ qs))"
| "nested_ledgers W F I [] = Inr []"
| "nested_ledgers W F I (k # ks) =
    (case nested_factory W F k of
       None \<Rightarrow> nested_ledgers W F I ks
     | Some F' \<Rightarrow>
         (case stored I k of
            SInst i J \<Rightarrow>
              (case ledger W F' J of
                 Inl e \<Rightarrow> Inl e
               | Inr es \<Rightarrow>
                   (case qualify_all k es of
                      Inl e \<Rightarrow> Inl e
                    | Inr qs \<Rightarrow>
                        (case nested_ledgers W F I ks of
                           Inl e \<Rightarrow> Inl e
                         | Inr rest \<Rightarrow> Inr (qs @ rest))))
          | _ \<Rightarrow> Inl (TypeError ''getErrors is not a function'')))"
  by pat_completeness auto
termination
  apply (relation "inv_image (less_than <*lex*> less_than <*lex*> less_than)
    (case_sum (\<lambda>(W, F, I). (fdepth F, 1::nat, 0::nat))
              (\<lambda>(W, F, I, ks). (fdepth F, 0, length ks)))")
  apply (auto dest: nested_factory_depth)
  done

declare ledger.simps [simp del]

text \<open>
  The instance with its own ledger and the ledger of every nested instance emptied; values
  and identities are as they were.
\<close>

function
  wiped :: "world \<Rightarrow> factory \<Rightarrow> inst \<Rightarrow> inst"
and wiped_fields :: "world \<Rightarrow> factory \<Rightarrow> inst \<Rightarrow> string list \<Rightarrow> inst"
where
  "wiped W F I = wiped_fields W F (Inst (obj I) [] (accessors I) (own I)) (schema_keys W F)"
| "wiped_fields W F I [] = I"
| "wiped_fields W F I (k # ks) =
    (case nested_factory W F k of
       None \<Rightarrow> wiped_fields W F I ks
     | Some F' \<Rightarrow>
         (case stored I k of
            SInst i J \<Rightarrow> wiped_fields W F (set_obj I (put k (SInst i (wiped W F' J)) (obj I))) ks
          | _ \<Rightarrow> I))"
  by pat_completeness auto
termination
  apply (relation "inv_image (less_than <*lex*> less_than <*lex*> less_than)
    (case_sum (\<lambda>(W, F, I). (fdepth F, 1::nat, 0::nat))
              (\<lambda>(W, F, I, ks). (fdepth F, 0, length ks)))")
  apply (auto dest: nested_factory_depth)
  done

declare wiped.simps [simp del]

section \<open>Concrete schemas\<close>

definition world0 :: world where
  "world0 = \<lparr>dyn = [], nextid = 0\<rparr>"

text \<open>\<open>{addr: {city: {type: String, minLength: 2}}}\<close>\<close>

definition city_spec :: fieldspec where
  "city_spec = FieldSpec ((base_props TString ''city'')\<lparr>minLength := Some 2\<rparr>) None None"

definition addr_factory :: factory where
  "addr_factory = Factory 1 default_options [(''city'', city_spec)]"

definition person_factory :: factory where
  "person_factory =
    Factory 2 default_options [(''addr'', FieldSpec (base_props TObject ''addr'') (Some addr_factory) None)]"

text \<open>\<open>{a: {type: Array, unique: true}}\<close>\<close>

definition unique_spec :: fieldspec where
  "unique_spec = FieldSpec ((base_props TArray ''a'')\<lparr>unique := True\<rparr>) None None"

text \<open>\<open>{b: 'any'}\<close>\<close>

definition any_factory :: factory where
  "any_factory = Factory 3 default_options [(''b'', any_spec ''b'')]"

text \<open>\<open>{f: {type: String, default: function() { throw 'boom'; }}}\<close>\<close>

definition throwing_factory :: factory where
  "throwing_factory =
    Factory 4 default_options
      [(''f'', FieldSpec ((base_props TString ''f'')\<lparr>pdefault := Some (DFun (Inl (Thrown ''boom'')))\<rparr>) None None)]"

text \<open>\<open>{a: {b: {c: {type: String, minLength: 2}}}}\<close>\<close>

definition deep_factory :: factory where
  "deep_factory =
    Factory 5 default_options
      [(''a'', FieldSpec (base_props TObject ''a'')
         (Some (Factory 6 default_options
            [(''b'', FieldSpec (base_props TObject ''b'')
               (Some (Factory 7 default_options
                  [(''c'', FieldSpec ((base_props TString ''c'')\<lparr>minLength := Some 2\<rparr>) None None)]))
               None)]))
         None)]"

text \<open>\<open>{xs: {type: Array, readOnly: true, default: [1]}}\<close>\<close>

definition array_default_factory :: factory where
  "array_default_factory =
    Factory 15 default_options
      [(''xs'', FieldSpec ((base_props TArray ''xs'')
          \<lparr>pdefault := Some (DLit (Arr [Num 1])), readOnly := True\<rparr>) None None)]"

section \<open>Auxiliary notions\<close>

text \<open>
  The string a string field checks, cut to \<open>maxLength\<close> where \<open>clip\<close> is declared, and the four
  checks of the string typecast on it.
\<close>

definition clipped :: "props \<Rightarrow> string \<Rightarrow> string" where
  "clipped pr s = (case maxLength pr of Some n \<Rightarrow> if clip pr \<noteq> None then take n s else s | None \<Rightarrow> s)"

definition passes :: "props \<Rightarrow> string \<Rightarrow> bool" where
  "passes pr t =
    ((case penum pr of Some es \<Rightarrow> Str t \<in> set es | None \<Rightarrow> True) \<and>
     (case minLength pr of Some m \<Rightarrow> m \<le> length t | None \<Rightarrow> True) \<and>
     (case maxLength pr of Some n \<Rightarrow> length t \<le> n | None \<Rightarrow> True) \<and>
     (case regex pr of Some r \<Rightarrow> r t | None \<Rightarrow> True))"

text \<open>The types whose typecast neither reads nor changes an instance, and that typecast.\<close>

definition scalar :: "ftype \<Rightarrow> bool" where
  "scalar t = (t = TString \<or> t = TNumber \<or> t = TBoolean \<or> t = TDate \<or> t = TAny)"

definition cast_scalar :: "options \<Rightarrow> props \<Rightarrow> jsval \<Rightarrow> exn + jsval" where
  "cast_scalar opts pr v =
    (if v = Null \<and> preserveNull opts then Inr Null
     else case ptype pr of
       TString \<Rightarrow> typecast_string pr v
     | TNumber \<Rightarrow> typecast_number opts pr v
     | TBoolean \<Rightarrow> typecast_boolean opts pr v
     | TDate \<Rightarrow> typecast_date opts pr v
     | _ \<Rightarrow> Inr v)"

text \<open>
  For the round trip: a value that is neither an array nor a plain object; a factory whose
  schema has distinct keys, all of type string, number, boolean, date or \<open>any\<close>, none with a
  default; an instance of such a factory, to whose schema no key has been added, that has
  the accessors of the schema and stores under every field a value which the typecast
  of the field returns as it is (and nothing under a \<open>readOnly\<close> field); and what the output
  projection yields from the values stored under the fields.
\<close>

fun simple :: "jsval \<Rightarrow> bool" where
  "simple (Arr xs) = False"
| "simple (Obj kvs) = False"
| "simple v = True"

definition flat :: "factory \<Rightarrow> bool" where
  "flat F =
    (distinct (map fst (fschema F)) \<and>
     list_all (\<lambda>e. scalar (ptype (props (snd e))) \<and> declared_default (props (snd e)) = None) (fschema F))"

definition settled_value :: "options \<Rightarrow> props \<Rightarrow> sval \<Rightarrow> bool" where
  "settled_value opts pr x =
    (case x of
       Plain v \<Rightarrow> simple v \<and> (v = Undefined \<or> (\<not> readOnly pr \<and> cast_scalar opts pr v = Inr v))
     | _ \<Rightarrow> False)"

definition settled :: "world \<Rightarrow> factory \<Rightarrow> inst \<Rightarrow> bool" where
  "settled W F I =
    (list_all (\<lambda>e. fst e \<noteq> fid F) (dyn W) \<and>
     list_all (\<lambda>e. fst e \<in> set (accessors I)) (fschema F) \<and>
     list_all (\<lambda>e. settled_value (foptions F) (props (snd e)) (stored I (fst e))) (fschema F))"

fun project :: "bool \<Rightarrow> (string \<times> fieldspec) list \<Rightarrow> (string \<Rightarrow> sval) \<Rightarrow> (string \<times> jsval) list
    \<Rightarrow> (string \<times> jsval) list" where
  "project su [] st getObj = getObj"
| "project su (e # es) st getObj =
     (if invisible (props (snd e)) then project su es st getObj
      else case st (fst e) of
        Plain v \<Rightarrow> if v = Undefined \<and> \<not> su then project su es st getObj
                   else project su es st (put (fst e) v getObj)
      | _ \<Rightarrow> project su es st getObj)"

text \<open>\<open>{f: {type: String, default: 'x'}}\<close>\<close>

definition default_factory :: factory where
  "default_factory =
    Factory 8 default_options
      [(''f'', FieldSpec ((base_props TString ''f'')\<lparr>pdefault := Some (DLit (Str ''x''))\<rparr>) None None)]"

text \<open>\<open>{name: String, age: {type: Number, min: 0}}\<close>\<close>

definition plain_factory :: factory where
  "plain_factory =
    Factory 9 default_options
      [(''name'', FieldSpec (base_props TString ''name'') None None),
       (''age'', FieldSpec ((base_props TNumber ''age'')\<lparr>pmin := Some 0\<rparr>) None None)]"

text \<open>A stored value that is a container or a nested instance, rather than a plain value.\<close>

fun container :: "sval \<Rightarrow> bool" where
  "container (Plain v) = False"
| "container _ = True"

text \<open>\<open>{xs: Array}\<close> with \<open>preserveNull: true\<close>\<close>

definition nullable_factory :: factory where
  "nullable_factory =
    Factory 10 (default_options\<lparr>preserveNull := True\<rparr>) [(''xs'', FieldSpec (base_props TArray ''xs'') None None)]"

text \<open>\<open>{s: {type: String, maxLength: 3, clip: true}}\<close>\<close>

definition clip_factory :: factory where
  "clip_factory =
    Factory 11 default_options
      [(''s'', FieldSpec ((base_props TString ''s'')\<lparr>maxLength := Some 3, clip := Some True\<rparr>) None None)]"

text \<open>\<open>{xs: [Number]}\<close>\<close>

definition numbers_factory :: factory where
  "numbers_factory =
    Factory 12 default_options
      [(''xs'', FieldSpec (base_props TArray ''xs'') None
                  (Some (FieldSpec ((base_props TNumber [])\<lparr>pname := None\<rparr>) None None)))]"

text \<open>\<open>{a: String}\<close> with \<open>strict: false\<close>\<close>

definition open_factory :: factory where
  "open_factory =
    Factory 13 (default_options\<lparr>strict := False\<rparr>) [(''a'', FieldSpec (base_props TString ''a'') None None)]"

text \<open>\<open>{city: {type: String, minLength: 2, readOnly: true, default: d}}\<close>\<close>

definition fixed_factory :: "string \<Rightarrow> factory" where
  "fixed_factory d =
    Factory 14 default_options
      [(''city'', FieldSpec ((base_props TString ''city'')
          \<lparr>minLength := Some 2, pdefault := Some (DLit (Str d)), readOnly := True\<rparr>) None None)]"

section \<open>Properties\<close>

subsection \<open>Unfolding the model\<close>

lemmas model_defs = lookup_field_def schema_keys_def schema_has_def proto_keys_def key_order_def
  array_index_def digit_val_def array_like_def named_def any_spec_def stored_def
  set_obj_def set_own_def push_error_def add_accessor_def add_dyn_def alloc_def declared_default_def
  assign_def clear_def store_back_def base_props_def default_options_def world0_def

lemmas model_simps = construct.simps pset.simps setter.simps pget.simps typecast.simps
  clearField.simps push.simps toObject.simps getErrors.simps clearErrors.simps

subsection \<open>Stores and lookups\<close>

lemma put_same: "map_of xs k = Some v \<Longrightarrow> put k v xs = xs"
  by (induction xs) (auto split: if_splits)

lemma set_obj_same [simp]: "set_obj I (obj I) = I"
  by (cases I) (simp add: set_obj_def)

lemma store_same: "(case stored I k of Plain y \<Rightarrow> I | _ \<Rightarrow> set_obj I (put k (stored I k) (obj I))) = I"
proof (cases "map_of (obj I) k")
  case None then show ?thesis by (simp add: stored_def)
next
  case (Some x)
  then have "put k x (obj I) = obj I" by (rule put_same)
  with Some show ?thesis by (cases x) (simp_all add: stored_def)
qed

lemma map_of_put [simp]: "map_of (put k v xs) k = Some v"
  by (induction xs) auto

lemma map_of_put_upd: "map_of (put k v xs) = (map_of xs)(k \<mapsto> v)"
  by (induction xs) (auto simp: fun_eq_iff)

lemma stored_put [simp]: "stored (set_obj I (put k x (obj I))) k = x"
  by (simp add: stored_def set_obj_def)

lemma accessors_set_obj [simp]: "accessors (set_obj I x) = accessors I"
  and own_set_obj [simp]: "own (set_obj I x) = own I"
  and obj_set_obj [simp]: "obj (set_obj I x) = x"
  and errors_set_obj [simp]: "errors (set_obj I x) = errors I"
  by (simp_all add: set_obj_def)

lemma accessors_set_own [simp]: "accessors (set_own I x) = accessors I"
  and own_set_own [simp]: "own (set_own I x) = x"
  and obj_set_own [simp]: "obj (set_own I x) = obj I"
  and errors_set_own [simp]: "errors (set_own I x) = errors I"
  by (simp_all add: set_own_def)

lemma accessors_push_error [simp]: "accessors (push_error I e) = accessors I"
  and own_push_error [simp]: "own (push_error I e) = own I"
  and obj_push_error [simp]: "obj (push_error I e) = obj I"
  and errors_push_error [simp]: "errors (push_error I e) = errors I @ [e]"
  by (simp_all add: push_error_def)

lemma accessors_add_accessor [simp]: "accessors (add_accessor I k) = accessors I @ [k]"
  and own_add_accessor [simp]: "own (add_accessor I k) = own I"
  and obj_add_accessor [simp]: "obj (add_accessor I k) = obj I"
  and errors_add_accessor [simp]: "errors (add_accessor I k) = errors I"
  by (simp_all add: add_accessor_def)

lemma stored_put_other: "k \<noteq> k' \<Longrightarrow> stored (set_obj I (put k' x (obj I))) k = stored I k"
  by (simp add: stored_def map_of_put_upd)

lemma stored_push_error [simp]: "stored (push_error I e) k = stored I k"
  by (simp add: stored_def)

lemma stored_set_own [simp]: "stored (set_own I x) k = stored I k"
  by (simp add: stored_def)

lemma stored_add_accessor [simp]: "stored (add_accessor I a) k = stored I k"
  by (simp add: stored_def)

lemma put_put [simp]: "put k x (put k y xs) = put k x xs"
  by (induction xs) auto

lemma set_obj_set_obj [simp]: "set_obj (set_obj I x) y = set_obj I y"
  by (simp add: set_obj_def)

lemma lookup_field_pname: "lookup_field W F k = Some fs \<Longrightarrow> pname (props fs) = Some k"
  by (auto simp: lookup_field_def named_def any_spec_def base_props_def split: option.splits if_splits)

lemma lookup_static:
  "map_of (fschema F) k = Some fs0 \<Longrightarrow> lookup_field W F k = Some (named k fs0)"
  by (simp add: lookup_field_def)

lemma props_named [simp]:
  "ptype (props (named k fs)) = ptype (props fs)"
  "readOnly (props (named k fs)) = readOnly (props fs)"
  "pdefault (props (named k fs)) = pdefault (props fs)"
  "pindex (props (named k fs)) = pindex (props fs)"
  "invisible (props (named k fs)) = invisible (props fs)"
  "objectType (named k fs) = objectType fs"
  "arrayType (named k fs) = arrayType fs"
  by (simp_all add: named_def)

lemma isAlias_named [simp]: "isAlias (props (named k fs)) = isAlias (props fs)"
  by (simp add: named_def)

lemma declared_default_named [simp]:
  "declared_default (props (named k fs)) = declared_default (props fs)"
  by (simp add: declared_default_def)

lemma schema_has_lookup: "lookup_field W F k = Some fs \<Longrightarrow> schema_has W F k"
  by (simp add: schema_has_def)

lemma set_key_order [simp]: "set (key_order ks) = set ks"
  by (auto simp: key_order_def)

subsection \<open>Reads and single writes\<close>

lemma assign_declared:
  "lookup_field W F k = Some fs \<Longrightarrow> k \<in> set (accessors I) \<Longrightarrow>
   assign W F I k v = setter (length (schema_keys W F)) False W F I k v"
  by (simp add: assign_def pset.simps schema_has_lookup)

lemma pget_scalar:
  "lookup_field W F k = Some fs \<Longrightarrow> k \<in> set (accessors I) \<Longrightarrow> scalar (ptype (props fs)) \<Longrightarrow>
   pget W F I k = (W, I, Inr (stored I k))"
  by (auto simp: pget.simps scalar_def)

lemma typecast_scalar:
  "scalar (ptype (props fs)) \<Longrightarrow>
   typecast W opts fs v orig = (W, orig, map_sum id Plain (cast_scalar opts (props fs) v))"
  by (auto simp: typecast.simps scalar_def cast_scalar_def)

lemma setter_scalar:
  assumes "lookup_field W F k = Some fs" "k \<in> set (accessors I)" "\<not> readOnly (props fs) \<or> lift"
    "scalar (ptype (props fs))"
  shows "setter n lift W F I k v =
    (case cast_scalar (foptions F) (props fs) v of
       Inl e \<Rightarrow> (W, push_error I e)
     | Inr x \<Rightarrow> (W, set_obj I (put k (Plain x) (obj I))))"
proof -
  have na: "ptype (props fs) \<noteq> TAlias" using assms(4) by (auto simp: scalar_def)
  show ?thesis
    using assms na
    by (auto simp: setter.simps pget_scalar typecast_scalar store_same split: sum.splits)
qed

lemma pget_result_stored:
  assumes "lookup_field W F k = Some fs" "k \<in> set (accessors I)" "ptype (props fs) \<noteq> TAlias"
    and "pget W F I k = (W1, I1, Inr orig)"
  shows "stored I1 k = orig"
  using assms
  by (auto simp: pget.simps Let_def split: if_splits option.splits sum.splits prod.splits)

lemma typecast_not_structural:
  assumes "ptype (props fs) = TArray \<or> ptype (props fs) = TObject" "\<not> isObject v"
    "\<not> (v = Null \<and> preserveNull opts)"
  shows "\<exists>msg. typecast W opts fs v orig = (W, orig, Inl (SetterError msg v (pname (props fs))))"
  using assms by (auto simp: typecast.simps)

lemma setter_not_structural:
  assumes lk: "lookup_field W F k = Some fs" and acc: "k \<in> set (accessors I)"
    and ro: "\<not> readOnly (props fs)"
    and ty: "ptype (props fs) = TArray \<or> ptype (props fs) = TObject"
    and v: "\<not> isObject v" "\<not> (v = Null \<and> preserveNull (foptions F))"
    and pg: "pget W F I k = (W1, I1, Inr orig)"
  shows "\<exists>msg. setter n False W F I k v = (W1, push_error I1 (SetterError msg v (Some k)))"
proof -
  have na: "ptype (props fs) \<noteq> TAlias" using ty by auto
  have st: "stored I1 k = orig" using lk acc na pg by (rule pget_result_stored)
  obtain msg where tc: "typecast W1 (foptions F) fs v orig
      = (W1, orig, Inl (SetterError msg v (pname (props fs))))"
    using typecast_not_structural [OF ty v] by blast
  have keep: "(case orig of Plain y \<Rightarrow> I1 | _ \<Rightarrow> set_obj I1 (put k orig (obj I1))) = I1"
    using store_same [of I1 k] unfolding st by simp
  have "setter n False W F I k v = (W1, push_error I1 (SetterError msg v (pname (props fs))))"
    using lk ro pg tc na keep by (simp add: setter.simps)
  then show ?thesis using lookup_field_pname [OF lk] by auto
qed

lemma pget_frame:
  assumes "pget W F I k = (W1, I1, r)"
  shows "accessors I1 = accessors I \<and> own I1 = own I \<and> errors I1 = errors I"
  using assms
  by (auto simp: pget.simps Let_def split: if_splits option.splits sum.splits prod.splits)

lemma pget_no_accessor:
  "k \<notin> set (accessors I) \<Longrightarrow> map_of (own I) k = None \<Longrightarrow> pget W F I k = (W, I, Inr (Plain Undefined))"
  by (simp add: pget.simps)

lemma store_back_frame:
  "accessors (store_back I k' fs x) = accessors I"
  "k \<noteq> k' \<Longrightarrow> map_of (own (store_back I k' fs x)) k = map_of (own I) k"
  by (auto simp: store_back_def map_of_put_upd split: sval.splits)

lemma pget_container:
  assumes "lookup_field W F k = Some fs" "ptype (props fs) \<noteq> TAlias" "container (stored I k)"
    "k \<in> set (accessors I)"
  shows "pget W F I k = (W, I, Inr (stored I k))"
  using assms by (cases "stored I k") (auto simp: pget.simps)

lemma setter_null_kept:
  assumes lk: "lookup_field W F k = Some fs" and acc: "k \<in> set (accessors I)"
    and ro: "\<not> readOnly (props fs)"
    and ty: "ptype (props fs) = TArray \<or> ptype (props fs) = TObject"
    and pn: "preserveNull (foptions F)"
    and pg: "pget W F I k = (W1, I1, Inr orig)"
  shows "setter n False W F I k Null = (W1, set_obj I1 (put k (Plain Null) (obj I1)))"
proof -
  have na: "ptype (props fs) \<noteq> TAlias" using ty by auto
  have st: "stored I1 k = orig" using lk acc na pg by (rule pget_result_stored)
  have tc: "typecast W1 (foptions F) fs Null orig = (W1, orig, Inr (Plain Null))"
    using pn by (simp add: typecast.simps)
  have keep: "(case orig of Plain y \<Rightarrow> I1 | _ \<Rightarrow> set_obj I1 (put k orig (obj I1))) = I1"
    using store_same [of I1 k] unfolding st by simp
  show ?thesis using lk ro pg tc na keep by (simp add: setter.simps)
qed

lemma array_write:
  assumes lk: "lookup_field W F k = Some fs" and ty: "ptype (props fs) = TArray"
    and ro: "\<not> readOnly (props fs)" and acc: "k \<in> set (accessors I)"
    and sa: "stored I k = SArr i es" and ob: "isObject v"
  shows "case push_each W (foptions F) fs [] (toArray_value v) of
               (W1, es1, Inl e) \<Rightarrow>
                 assign W F I k v = (W1, push_error (set_obj I (put k (SArr i es1) (obj I))) e)
             | (W1, es1, Inr u) \<Rightarrow>
                 assign W F I k v = (W1, set_obj I (put k (SArr i es1) (obj I)))"
proof -
  have as: "assign W F I k v = setter (length (schema_keys W F)) False W F I k v"
    using lk acc by (rule assign_declared)
  have pg: "pget W F I k = (W, I, Inr (SArr i es))"
    using pget_container [OF lk _ _ acc] ty sa by simp
  have nn: "v \<noteq> Null" using ob by auto
  obtain W1 es1 r1 where pe: "push_each W (foptions F) fs [] (toArray_value v) = (W1, es1, r1)"
    by (cases "push_each W (foptions F) fs [] (toArray_value v)") auto
  have tc: "typecast W (foptions F) fs v (SArr i es)
      = (W1, SArr i es1, case r1 of Inl e \<Rightarrow> Inl e | Inr u \<Rightarrow> Inr (SArr i es1))"
    using ob nn ty pe by (cases r1) (auto simp: typecast.simps)
  show ?thesis
    using lk ro pg tc ty pe by (cases r1) (simp_all add: as setter.simps)
qed

lemma cast_string:
  assumes "ptype pr = TString"
  shows "(passes pr (clipped pr s) \<longrightarrow> cast_scalar opts pr (Str s) = Inr (Str (clipped pr s))) \<and>
         (\<not> passes pr (clipped pr s) \<longrightarrow>
            (\<exists>msg. cast_scalar opts pr (Str s) = Inl (SetterError msg (Str (clipped pr s)) (pname pr))))"
  using assms
  by (auto simp: cast_scalar_def typecast_string_def passes_def clipped_def Let_def split: option.splits)

subsection \<open>Writes fail soft\<close>




subsection \<open>Undeclared keys\<close>

text \<open>
An instance without a value for a key does not show it.
\<close>

lemma toObject_fields_absent:
  assumes "\<not> setUndefined (foptions F)"
  shows "toObject_fields W F J ks getObj = (W2, J2, Inr (Obj kvs)) \<Longrightarrow>
         k \<notin> set (accessors J) \<Longrightarrow> map_of (own J) k = None \<Longrightarrow> map_of getObj k = None \<Longrightarrow>
         map_of kvs k = None"
proof (induction ks arbitrary: W J getObj)
  case Nil
  then show ?case by simp
next
  case (Cons k' ks)
  show ?case
  proof (cases "k' = k")
    case True
    have pg: "pget W F J k = (W, J, Inr (Plain Undefined))"
      using Cons.prems(2,3) by (rule pget_no_accessor)
    have "toObject_fields W F J (k' # ks) getObj = toObject_fields W F J ks getObj"
      using True pg assms by (simp split: option.splits)
    with Cons show ?thesis by simp
  next
    case False
    note step = Cons.prems(1) [simplified]
    show ?thesis
    proof (cases "lookup_field W F k'")
      case None
      with Cons show ?thesis by simp
    next
      case (Some fs)
      show ?thesis
      proof (cases "invisible (props fs)")
        case True
        with Some Cons show ?thesis by simp
      next
        case vis: False
        obtain W1 J1 r where pg: "pget W F J k' = (W1, J1, r)" by (cases "pget W F J k'") auto
        note fr = pget_frame [OF pg]
        have inv1: "k \<notin> set (accessors J1)" "map_of (own J1) k = None"
          using fr Cons.prems by simp_all
        have sb: "k \<notin> set (accessors (store_back J1 k' fs x))"
                 "map_of (own (store_back J1 k' fs x)) k = None" for x
          using inv1 False by (simp_all add: store_back_frame)
        have put: "map_of (put k' y getObj) k = None" for y
          using Cons.prems(4) False by (simp add: map_of_put_upd)
        show ?thesis
          using step Some vis pg assms
          by (auto split: sum.splits if_splits sval.splits option.splits prod.splits jsval.splits
                dest!: Cons.IH simp: inv1 sb put Cons.prems(4))
      qed
    qed
  qed
qed

lemma lookup_field_add_dyn:
  "lookup_field W F k = None \<Longrightarrow> lookup_field (add_dyn W F k) F k = Some (any_spec k)"
  by (auto simp: lookup_field_def add_dyn_def split: option.splits if_splits)

lemma schema_keys_add_dyn:
  "lookup_field W F k = None \<Longrightarrow> k \<in> set (schema_keys (add_dyn W F k) F)"
  by (auto simp: lookup_field_def schema_keys_def add_dyn_def split: option.splits if_splits)

lemma setter_any_spec:
  assumes "lookup_field W F k = Some (any_spec k)" "k \<in> set (accessors I)"
  shows "setter n lift W F I k v = (W, set_obj I (put k (Plain v) (obj I)))"
proof -
  have pg: "pget W F I k = (W, I, Inr (stored I k))"
    using assms by (simp add: pget.simps any_spec_def base_props_def)
  have tc: "typecast W (foptions F) (any_spec k) v (stored I k) = (W, stored I k, Inr (Plain v))"
    by (auto simp: typecast.simps any_spec_def base_props_def)
  show ?thesis
    using assms(1) pg tc store_same [of I k]
    by (simp add: setter.simps) (simp add: any_spec_def base_props_def)
qed




subsection \<open>Read-only fields with a default\<close>

lemma pget_stored_other:
  assumes "pget W F I k' = (W1, I1, r)" "k \<noteq> k'"
  shows "stored I1 k = stored I k"
  using assms
  by (auto simp: pget.simps Let_def stored_put_other split: if_splits option.splits sum.splits prod.splits)

lemma pget_alias:
  assumes "lookup_field W F k' = Some fs" "ptype (props fs) = TAlias"
  shows "pget W F I k' = (W, I, Inr (if k' \<in> set (accessors I) then stored I (pindex (props fs))
            else Plain (case map_of (own I) k' of Some v \<Rightarrow> v | None \<Rightarrow> Undefined)))"
  using assms by (simp add: pget.simps)

lemma typecast_alias:
  assumes "ptype (props fs) = TAlias"
  shows "typecast W opts fs v orig = (W, orig, Inr (Plain v))"
  using assms by (auto simp: typecast.simps)

lemma setter_frame_step:
  assumes st: "map_of (fschema F) k = Some fs0" and ro: "readOnly (props fs0)"
    and ih: "\<And>m W I k' v W2 I2. n = Suc m \<Longrightarrow> pset m W F I k' v = (W2, I2) \<Longrightarrow>
               k \<in> set (accessors I) \<Longrightarrow>
               stored I2 k = stored I k \<and> k \<in> set (accessors I2)"
    and run: "setter n lift W F I k' v = (W2, I2)" and nl: "\<not> (k' = k \<and> lift)"
    and acc: "k \<in> set (accessors I)"
  shows "stored I2 k = stored I k \<and> k \<in> set (accessors I2)"
proof (cases "lookup_field W F k'")
  case None
  with run acc show ?thesis by (simp add: setter.simps)
next
  case (Some fs)
  show ?thesis
  proof (cases "readOnly (props fs) \<and> \<not> lift")
    case True
    with run Some acc show ?thesis by (simp add: setter.simps)
  next
    case False
    have ne: "k \<noteq> k'"
    proof
      assume "k = k'"
      with Some lookup_static [OF st, of W] have "fs = named k fs0" by simp
      with ro False nl \<open>k = k'\<close> show False by simp
    qed
    obtain W1 I1 r where pg: "pget W F I k' = (W1, I1, r)" by (cases "pget W F I k'") auto
    have s1: "stored I1 k = stored I k" using pg ne by (rule pget_stored_other)
    have a1: "k \<in> set (accessors I1)" using pget_frame [OF pg] acc by simp
    show ?thesis
    proof (cases r)
      case (Inl e)
      with run Some False pg s1 a1 show ?thesis by (auto simp: setter.simps)
    next
      case (Inr orig)
      show ?thesis
      proof (cases "ptype (props fs) = TAlias")
        case al: True
        have pga: "pget W F I k' = (W, I, Inr (if k' \<in> set (accessors I) then stored I (pindex (props fs))
            else Plain (case map_of (own I) k' of Some v \<Rightarrow> v | None \<Rightarrow> Undefined)))"
          using Some al by (rule pget_alias)
        with pg Inr have eq: "W1 = W" "I1 = I" by simp_all
        have tc: "typecast W (foptions F) fs v orig = (W, orig, Inr (Plain v))"
          using al by (rule typecast_alias)
        define I3 where "I3 = (case orig of Plain y \<Rightarrow> I | _ \<Rightarrow> set_obj I (put (pindex (props fs)) orig (obj I)))"
        have s3: "stored I3 k = stored I k"
        proof (cases "pindex (props fs) = k")
          case pk: True
          show ?thesis
          proof (cases "k' \<in> set (accessors I)")
            case True
            with pga pg Inr have o: "orig = stored I k" using pk by simp
            have "I3 = (case stored I k of Plain y \<Rightarrow> I | _ \<Rightarrow> set_obj I (put k (stored I k) (obj I)))"
              unfolding I3_def o pk ..
            then show ?thesis using store_same [of I k] by simp
          next
            case False
            with pga pg Inr show ?thesis by (auto simp: I3_def)
          qed
        next
          case False
          then show ?thesis by (cases orig) (simp_all add: I3_def stored_put_other)
        qed
        have a3: "k \<in> set (accessors I3)" using acc by (cases orig) (simp_all add: I3_def)
        show ?thesis
        proof (cases n)
          case 0
          with run Some False pg Inr eq tc al
          have "I2 = push_error I3 (TypeError ''Maximum call stack size exceeded'')"
            by (auto simp: setter.simps I3_def [symmetric])
          with s3 a3 show ?thesis by simp
        next
          case (Suc m)
          with run Some False pg Inr eq tc al
          have "pset m W F I3 (pindex (props fs)) v = (W2, I2)"
            by (simp add: setter.simps I3_def [symmetric])
          from ih [OF Suc this a3] s3 show ?thesis by simp
        qed
      next
        case na: False
        obtain W3 orig' r' where tc: "typecast W1 (foptions F) fs v orig = (W3, orig', r')"
          by (cases "typecast W1 (foptions F) fs v orig") auto
        define I3 where "I3 = (case orig' of Plain y \<Rightarrow> I1 | _ \<Rightarrow> set_obj I1 (put k' orig' (obj I1)))"
        have s3: "stored I3 k = stored I k"
          using s1 ne by (cases orig') (simp_all add: I3_def stored_put_other)
        have a3: "k \<in> set (accessors I3)" using a1 by (cases orig') (simp_all add: I3_def)
        from run Some False pg Inr tc na
        have "(W2, I2) = (case r' of Inl e \<Rightarrow> (W3, push_error I3 e)
                           | Inr x \<Rightarrow> (W3, set_obj I3 (put k' x (obj I3))))"
          by (cases r') (auto simp: setter.simps I3_def [symmetric])
        then show ?thesis using s3 a3 ne by (cases r') (auto simp: stored_put_other)
      qed
    qed
  qed
qed

lemma pset_frame_step:
  assumes st: "map_of (fschema F) k = Some fs0" and ro: "readOnly (props fs0)"
    and ih: "\<And>lift W I k' v W2 I2. setter n lift W F I k' v = (W2, I2) \<Longrightarrow> \<not> (k' = k \<and> lift) \<Longrightarrow>
               k \<in> set (accessors I) \<Longrightarrow>
               stored I2 k = stored I k \<and> k \<in> set (accessors I2)"
    and run: "pset n W F I k' v = (W2, I2)"
    and acc: "k \<in> set (accessors I)"
  shows "stored I2 k = stored I k \<and> k \<in> set (accessors I2)"
proof -
  define name where "name = (if keysIgnoreCase (foptions F) \<and> \<not> schema_has W F k'
                 then getIndex W F k' else k')"
  show ?thesis
  proof (cases "schema_has W F name")
    case None: False
    show ?thesis
    proof (cases "strict (foptions F)")
      case True
      with run None acc show ?thesis by (simp add: pset.simps name_def [symmetric])
    next
      case False
      with run None have "setter n False (add_dyn W F name) F (add_accessor I name) name v = (W2, I2)"
        by (simp add: pset.simps name_def [symmetric])
      from ih [OF this] acc show ?thesis by simp
    qed
  next
    case Some: True
    show ?thesis
    proof (cases "name \<in> set (accessors I)")
      case True
      with run Some have "setter n False W F I name v = (W2, I2)"
        by (simp add: pset.simps name_def [symmetric])
      from ih [OF this] acc show ?thesis by simp
    next
      case False
      with run Some acc show ?thesis by (auto simp: pset.simps name_def [symmetric] split: if_splits)
    qed
  qed
qed

lemma frame_readOnly:
  assumes st: "map_of (fschema F) k = Some fs0" and ro: "readOnly (props fs0)"
  shows "(\<forall>lift W I k' v W2 I2. setter n lift W F I k' v = (W2, I2) \<longrightarrow> \<not> (k' = k \<and> lift) \<longrightarrow>
            k \<in> set (accessors I) \<longrightarrow>
            stored I2 k = stored I k \<and> k \<in> set (accessors I2)) \<and>
         (\<forall>W I k' v W2 I2. pset n W F I k' v = (W2, I2) \<longrightarrow>
            k \<in> set (accessors I) \<longrightarrow>
            stored I2 k = stored I k \<and> k \<in> set (accessors I2))"
proof (induction n)
  case 0
  have S: "stored I2 k = stored I k \<and> k \<in> set (accessors I2)"
    if "setter 0 lift W F I k' v = (W2, I2)" "\<not> (k' = k \<and> lift)" "k \<in> set (accessors I)"
       for lift W I k' v W2 I2
    using setter_frame_step [OF st ro _ that] by simp
  have P: "stored I2 k = stored I k \<and> k \<in> set (accessors I2)"
    if "pset 0 W F I k' v = (W2, I2)" "k \<in> set (accessors I)"
    for W I k' v W2 I2
    using pset_frame_step [OF st ro S that] by simp
  show ?case using S P by blast
next
  case (Suc n)
  have S: "stored I2 k = stored I k \<and> k \<in> set (accessors I2)"
    if "setter (Suc n) lift W F I k' v = (W2, I2)" "\<not> (k' = k \<and> lift)" "k \<in> set (accessors I)"
       for lift W I k' v W2 I2
    using setter_frame_step [OF st ro _ that] Suc.IH by blast
  have P: "stored I2 k = stored I k \<and> k \<in> set (accessors I2)"
    if "pset (Suc n) W F I k' v = (W2, I2)" "k \<in> set (accessors I)"
    for W I k' v W2 I2
    using pset_frame_step [OF st ro S that] by simp
  show ?case using S P by blast
qed

lemma setter_frame:
  assumes st: "map_of (fschema F) k = Some fs0" and ro: "readOnly (props fs0)"
    and run: "setter n lift W F I k' v = (W2, I2)" and nl: "k' \<noteq> k \<or> \<not> lift"
    and acc: "k \<in> set (accessors I)"
  shows "stored I2 k = stored I k \<and> k \<in> set (accessors I2)"
proof -
  from frame_readOnly [OF st ro, of n]
  have "\<forall>lift W I k' v W2 I2. setter n lift W F I k' v = (W2, I2) \<longrightarrow> \<not> (k' = k \<and> lift) \<longrightarrow>
            k \<in> set (accessors I) \<longrightarrow>
            stored I2 k = stored I k \<and> k \<in> set (accessors I2)" by (rule conjunct1)
  then have "setter n lift W F I k' v = (W2, I2) \<longrightarrow> \<not> (k' = k \<and> lift) \<longrightarrow>
            k \<in> set (accessors I) \<longrightarrow>
            stored I2 k = stored I k \<and> k \<in> set (accessors I2)" by (elim allE)
  with run nl acc show ?thesis by simp
qed

lemma pset_frame:
  assumes st: "map_of (fschema F) k = Some fs0" and ro: "readOnly (props fs0)"
    and run: "pset n W F I k' v = (W2, I2)"
    and acc: "k \<in> set (accessors I)"
  shows "stored I2 k = stored I k \<and> k \<in> set (accessors I2)"
proof -
  from frame_readOnly [OF st ro, of n]
  have "\<forall>W I k' v W2 I2. pset n W F I k' v = (W2, I2) \<longrightarrow>
            k \<in> set (accessors I) \<longrightarrow>
            stored I2 k = stored I k \<and> k \<in> set (accessors I2)" by (rule conjunct2)
  then have "pset n W F I k' v = (W2, I2) \<longrightarrow>
            k \<in> set (accessors I) \<longrightarrow>
            stored I2 k = stored I k \<and> k \<in> set (accessors I2)" by (elim allE)
  with run acc show ?thesis by simp
qed

lemma set_each_frame:
  assumes st: "map_of (fschema F) k = Some fs0" and ro: "readOnly (props fs0)"
  shows "set_each W F I es = (W2, I2) \<Longrightarrow> k \<in> set (accessors I) \<Longrightarrow>
         stored I2 k = stored I k \<and> k \<in> set (accessors I2)"
proof (induction es arbitrary: W I)
  case Nil
  then show ?case by simp
next
  case (Cons e es)
  obtain W1 I1 where ps: "pset (length (schema_keys W F)) W F I (fst e) (snd e) = (W1, I1)"
    by (cases "pset (length (schema_keys W F)) W F I (fst e) (snd e)") auto
  have f: "stored I1 k = stored I k \<and> k \<in> set (accessors I1)"
    using pset_frame [OF st ro ps Cons.prems(2)] .
  from Cons.prems(1) ps have "set_each W1 F I1 es = (W2, I2)" by simp
  from Cons.IH [OF this] f show ?case by simp
qed

lemma typecast_string_name:
  "typecast_string (pr\<lparr>pname := n\<rparr>) v = Inr x \<longleftrightarrow> typecast_string pr v = Inr x"
  by (simp add: typecast_string_def Let_def split: option.splits)

lemma typecast_number_name:
  "typecast_number opts (pr\<lparr>pname := n\<rparr>) v = Inr x \<longleftrightarrow> typecast_number opts pr v = Inr x"
  by (simp add: typecast_number_def Let_def split: option.splits)

lemma typecast_boolean_name:
  "typecast_boolean opts (pr\<lparr>pname := n\<rparr>) v = typecast_boolean opts pr v"
  by (simp add: typecast_boolean_def)

lemma typecast_date_name:
  "typecast_date opts (pr\<lparr>pname := n\<rparr>) v = Inr x \<longleftrightarrow> typecast_date opts pr v = Inr x"
proof -
  define w where "w = (case v of Str s \<Rightarrow> (case dateParse opts s of Some t \<Rightarrow> Num t | None \<Rightarrow> NaN) | _ \<Rightarrow> v)"
  define u where "u = (case w of
                  Num n \<Rightarrow> new_Date (if length (num_to_string n) > 10 then n else n * 1000)
                | _ \<Rightarrow> w)"
  show ?thesis
    unfolding typecast_date_def Let_def w_def [symmetric] u_def [symmetric]
    by (cases u) simp_all
qed

lemma cast_scalar_named:
  "cast_scalar opts (props (named k fs)) v = Inr x \<longleftrightarrow> cast_scalar opts (props fs) v = Inr x"
  by (cases "ptype (props fs)")
     (simp_all add: cast_scalar_def named_def typecast_string_name typecast_number_name
        typecast_boolean_name typecast_date_name)

lemma setter_acc_step:
  assumes ih: "\<And>m W I k' v W2 I2. n = Suc m \<Longrightarrow> pset m W F I k' v = (W2, I2) \<Longrightarrow>
               k \<in> set (accessors I) \<Longrightarrow> k \<in> set (accessors I2)"
    and run: "setter n lift W F I k' v = (W2, I2)" and acc: "k \<in> set (accessors I)"
  shows "k \<in> set (accessors I2)"
proof (cases "lookup_field W F k'")
  case None
  with run acc show ?thesis by (simp add: setter.simps)
next
  case (Some fs)
  show ?thesis
  proof (cases "readOnly (props fs) \<and> \<not> lift")
    case True
    with run Some acc show ?thesis by (simp add: setter.simps)
  next
    case False
    obtain W1 I1 r where pg: "pget W F I k' = (W1, I1, r)" by (cases "pget W F I k'") auto
    have a1: "k \<in> set (accessors I1)" using pget_frame [OF pg] acc by simp
    show ?thesis
    proof (cases r)
      case (Inl e)
      with run Some False pg a1 show ?thesis by (auto simp: setter.simps)
    next
      case (Inr orig)
      obtain W3 orig' r' where tc: "typecast W1 (foptions F) fs v orig = (W3, orig', r')"
        by (cases "typecast W1 (foptions F) fs v orig") auto
      define I3 where "I3 = (case orig' of Plain y \<Rightarrow> I1
        | _ \<Rightarrow> set_obj I1 (put (if ptype (props fs) = TAlias then pindex (props fs) else k') orig' (obj I1)))"
      have a3: "k \<in> set (accessors I3)" using a1 by (cases orig') (simp_all add: I3_def)
      show ?thesis
      proof (cases r')
        case (Inl e)
        with run Some False pg Inr tc have "I2 = push_error I3 e"
          by (simp add: setter.simps Let_def I3_def)
        with a3 show ?thesis by simp
      next
        case rx: (Inr x)
        show ?thesis
        proof (cases "ptype (props fs) = TAlias")
          case na: False
          with run Some False pg Inr tc rx have "I2 = set_obj I3 (put k' x (obj I3))"
            by (simp add: setter.simps Let_def I3_def)
          with a3 show ?thesis by simp
        next
          case al: True
          show ?thesis
          proof (cases n)
            case 0
            with run Some False pg Inr tc rx al
            have "I2 = push_error I3 (TypeError ''Maximum call stack size exceeded'')"
              by (simp add: setter.simps Let_def I3_def)
            with a3 show ?thesis by simp
          next
            case (Suc m)
            show ?thesis
            proof (cases x)
              case (Plain y)
              with run Some False pg Inr tc rx al Suc
              have "pset m W3 F I3 (pindex (props fs)) y = (W2, I2)"
                by (simp add: setter.simps Let_def I3_def)
              from ih [OF Suc this a3] show ?thesis .
            next
              case (SArr i es)
              with run Some False pg Inr tc rx al Suc have "I2 = I3"
                by (simp add: setter.simps Let_def I3_def)
              with a3 show ?thesis by simp
            next
              case (SInst i J)
              with run Some False pg Inr tc rx al Suc have "I2 = I3"
                by (simp add: setter.simps Let_def I3_def)
              with a3 show ?thesis by simp
            qed
          qed
        qed
      qed
    qed
  qed
qed

lemma pset_acc_step:
  assumes ih: "\<And>lift W I k' v W2 I2. setter n lift W F I k' v = (W2, I2) \<Longrightarrow>
               k \<in> set (accessors I) \<Longrightarrow> k \<in> set (accessors I2)"
    and run: "pset n W F I k' v = (W2, I2)" and acc: "k \<in> set (accessors I)"
  shows "k \<in> set (accessors I2)"
proof -
  define name where "name = (if keysIgnoreCase (foptions F) \<and> \<not> schema_has W F k'
                 then getIndex W F k' else k')"
  show ?thesis
  proof (cases "schema_has W F name")
    case False
    show ?thesis
    proof (cases "strict (foptions F)")
      case True
      with run False acc show ?thesis by (simp add: pset.simps name_def [symmetric])
    next
      case ns: False
      with run False have "setter n False (add_dyn W F name) F (add_accessor I name) name v = (W2, I2)"
        by (simp add: pset.simps name_def [symmetric])
      from ih [OF this] acc show ?thesis by simp
    qed
  next
    case True
    show ?thesis
    proof (cases "name \<in> set (accessors I)")
      case ia: True
      with run True have "setter n False W F I name v = (W2, I2)"
        by (simp add: pset.simps name_def [symmetric])
      from ih [OF this] acc show ?thesis by simp
    next
      case False
      with run True acc show ?thesis by (auto simp: pset.simps name_def [symmetric] split: if_splits)
    qed
  qed
qed

lemma accessors_kept:
  "(\<forall>lift W I k' v W2 I2. setter n lift W F I k' v = (W2, I2) \<longrightarrow> k \<in> set (accessors I) \<longrightarrow>
      k \<in> set (accessors I2)) \<and>
   (\<forall>W I k' v W2 I2. pset n W F I k' v = (W2, I2) \<longrightarrow> k \<in> set (accessors I) \<longrightarrow>
      k \<in> set (accessors I2))"
proof (induction n)
  case 0
  have S: "k \<in> set (accessors I2)"
    if "setter 0 lift W F I k' v = (W2, I2)" "k \<in> set (accessors I)" for lift W I k' v W2 I2
    using setter_acc_step [OF _ that] by simp
  have P: "k \<in> set (accessors I2)"
    if "pset 0 W F I k' v = (W2, I2)" "k \<in> set (accessors I)" for W I k' v W2 I2
    using pset_acc_step [OF S that] by simp
  show ?case using S P by blast
next
  case (Suc n)
  have S: "k \<in> set (accessors I2)"
    if "setter (Suc n) lift W F I k' v = (W2, I2)" "k \<in> set (accessors I)" for lift W I k' v W2 I2
    using setter_acc_step [OF _ that] Suc.IH by blast
  have P: "k \<in> set (accessors I2)"
    if "pset (Suc n) W F I k' v = (W2, I2)" "k \<in> set (accessors I)" for W I k' v W2 I2
    using pset_acc_step [OF S that] by simp
  show ?case using S P by blast
qed

lemma setter_accessors:
  assumes "setter n lift W F I k' v = (W2, I2)" "k \<in> set (accessors I)"
  shows "k \<in> set (accessors I2)"
  using accessors_kept [of n F k] assms by blast

lemma apply_defaults_keeps:
  assumes st: "map_of (fschema F) k = Some fs0" and ro: "readOnly (props fs0)"
    and dd: "declared_default (props fs0) = Some d" and ev: "eval_default d = Inr dv"
    and step: "\<And>W I W1 I1. k \<in> set (accessors I) \<Longrightarrow> P (stored I k) \<Longrightarrow>
                 setter (length (schema_keys W F)) True W F I k dv = (W1, I1) \<Longrightarrow>
                 Q (stored I1 k) \<and> k \<in> set (accessors I1)"
    and QP: "\<And>x. Q x \<Longrightarrow> P x"
  shows "apply_defaults W F I ks = (W2, I2, Inr u) \<Longrightarrow> k \<in> set (accessors I) \<Longrightarrow>
         P (stored I k) \<Longrightarrow> k \<in> set ks \<or> Q (stored I k) \<Longrightarrow>
         Q (stored I2 k) \<and> k \<in> set (accessors I2)"
proof (induction ks arbitrary: W I)
  case Nil
  then show ?case by simp
next
  case (Cons k' ks)
  show ?case
  proof (cases "k' = k")
    case True
    have lk: "lookup_field W F k = Some (named k fs0)" using st by (rule lookup_static)
    obtain W1 I1 where se: "setter (length (schema_keys W F)) True W F I k dv = (W1, I1)"
      by (cases "setter (length (schema_keys W F)) True W F I k dv") auto
    have q: "Q (stored I1 k) \<and> k \<in> set (accessors I1)"
      using step [OF Cons.prems(2,3) se] .
    from Cons.prems(1) True lk dd ev se
    have "apply_defaults W1 F I1 ks = (W2, I2, Inr u)" by simp
    from Cons.IH [OF this] q QP show ?thesis by simp
  next
    case False
    with Cons.prems(4) have tail: "k \<in> set ks \<or> Q (stored I k)" by auto
    show ?thesis
    proof (cases "lookup_field W F k'")
      case None
      with Cons.prems(1) have "apply_defaults W F I ks = (W2, I2, Inr u)" by simp
      from Cons.IH [OF this Cons.prems(2,3) tail] show ?thesis .
    next
      case (Some fs)
      show ?thesis
      proof (cases "declared_default (props fs)")
        case None
        with Cons.prems(1) Some have "apply_defaults W F I ks = (W2, I2, Inr u)" by simp
        from Cons.IH [OF this Cons.prems(2,3) tail] show ?thesis .
      next
        case (Some d')
        note dS = this
        show ?thesis
        proof (cases "eval_default d'")
          case (Inl e)
          with Cons.prems(1) \<open>lookup_field W F k' = Some fs\<close> dS show ?thesis by simp
        next
          case (Inr dv')
          obtain W1 I1 where se: "setter (length (schema_keys W F)) True W F I k' dv' = (W1, I1)"
            by (cases "setter (length (schema_keys W F)) True W F I k' dv'") auto
          have nl: "k' \<noteq> k \<or> \<not> True" using False by simp
          have f: "stored I1 k = stored I k \<and> k \<in> set (accessors I1)"
            using setter_frame [OF st ro se nl Cons.prems(2)] .
          from Cons.prems(1) \<open>lookup_field W F k' = Some fs\<close> dS Inr se
          have "apply_defaults W1 F I1 ks = (W2, I2, Inr u)" by simp
          from Cons.IH [OF this] f Cons.prems(3) tail show ?thesis by simp
        qed
      qed
    qed
  qed
qed

lemma default_step_scalar:
  assumes st: "map_of (fschema F) k = Some fs0" and sc: "scalar (ptype (props fs0))"
    and cs: "cast_scalar (foptions F) (props fs0) dv = Inr x"
    and acc: "k \<in> set (accessors I)"
    and se: "setter n True W F I k dv = (W1, I1)"
  shows "stored I1 k = Plain x \<and> k \<in> set (accessors I1)"
proof -
  have lk: "lookup_field W F k = Some (named k fs0)" using st by (rule lookup_static)
  have sc': "scalar (ptype (props (named k fs0)))" using sc by simp
  have cs': "cast_scalar (foptions F) (props (named k fs0)) dv = Inr x"
    using cs by (simp add: cast_scalar_named)
  have "setter n True W F I k dv = (W, set_obj I (put k (Plain x) (obj I)))"
    using setter_scalar [OF lk acc _ sc', of True _ dv] cs' by simp
  with se acc show ?thesis by auto
qed

lemma default_step_object:
  assumes st: "map_of (fschema F) k = Some fs0" and ty: "ptype (props fs0) = TObject"
    and dd: "declared_default (props fs0) = Some d" and ev: "eval_default d = Inr dv"
    and acc: "k \<in> set (accessors I)"
    and P: "stored I k = Plain Undefined \<or> stored I k = Plain dv"
    and se: "setter n True W F I k dv = (W1, I1)"
  shows "stored I1 k = Plain dv \<and> k \<in> set (accessors I1)"
proof -
  have lk: "lookup_field W F k = Some (named k fs0)" using st by (rule lookup_static)
  define J where "J = set_obj I (put k (Plain dv) (obj I))"
  have sJ: "stored J k = Plain dv" and aJ: "k \<in> set (accessors J)" using acc by (simp_all add: J_def)
  have pg: "pget W F I k = (W, if struthy (stored I k) then I else J, Inr (Plain dv))"
    using lk ty dd ev acc P by (auto simp: pget.simps J_def)
  define I0 where "I0 = (if struthy (stored I k) then I else J)"
  have s0: "stored I0 k = Plain dv" using P sJ by (auto simp: I0_def)
  have a0: "k \<in> set (accessors I0)" using acc aJ by (simp add: I0_def)
  obtain r where tc: "typecast W (foptions F) (named k fs0) dv (Plain dv) = (W, Plain dv, r)"
    and rr: "\<And>x. r = Inr x \<Longrightarrow> x = Plain dv"
  proof (cases "dv = Null \<and> preserveNull (foptions F)")
    case True
    then have "typecast W (foptions F) (named k fs0) dv (Plain dv) = (W, Plain dv, Inr (Plain dv))"
      by (simp add: typecast.simps)
    then show ?thesis using that by blast
  next
    case nn: False
    show ?thesis
    proof (cases "isObject dv")
      case False
      with nn ty have "\<exists>e. typecast W (foptions F) (named k fs0) dv (Plain dv) = (W, Plain dv, Inl e)"
        by (auto simp: typecast.simps)
      then show ?thesis using that by blast
    next
      case True
      then have nu: "dv \<noteq> Undefined" by auto
      show ?thesis
      proof (cases "objectType fs0")
        case None
        with nn ty True
        have "typecast W (foptions F) (named k fs0) dv (Plain dv) = (W, Plain dv, Inr (Plain dv))"
          by (auto simp: typecast.simps)
        then show ?thesis using that by blast
      next
        case (Some F')
        with nn ty True nu
        have "\<exists>e. typecast W (foptions F) (named k fs0) dv (Plain dv) = (W, Plain dv, Inl e)"
          by (cases dv) (auto simp: typecast.simps)
        then show ?thesis using that by blast
      qed
    qed
  qed
  have "(W1, I1) = (case r of Inl e \<Rightarrow> (W, push_error I0 e)
                     | Inr x \<Rightarrow> (W, set_obj I0 (put k x (obj I0))))"
    using se lk pg tc ty by (cases r) (auto simp: setter.simps I0_def Let_def)
  then show ?thesis using s0 a0 rr by (cases r) auto
qed

lemma default_step_array:
  assumes st: "map_of (fschema F) k = Some fs0" and ty: "ptype (props fs0) = TArray"
    and ob: "isObject dv"
    and acc: "k \<in> set (accessors I)"
    and P: "stored I k = Plain Undefined \<or> (\<exists>i es. stored I k = SArr i es)"
    and se: "setter n True W F I k dv = (W1, I1)"
  shows "(\<exists>i es. stored I1 k = SArr i es \<and>
            (\<exists>Wa Wb r. push_each Wa (foptions F) (named k fs0) [] (toArray_value dv) = (Wb, es, r))) \<and>
         k \<in> set (accessors I1)"
proof -
  have lk: "lookup_field W F k = Some (named k fs0)" using st by (rule lookup_static)
  have nn: "dv \<noteq> Null" using ob by auto
  obtain Wa Ia i es0 where pg: "pget W F I k = (Wa, Ia, Inr (SArr i es0))"
    and sa: "stored Ia k = SArr i es0" and aa: "k \<in> set (accessors Ia)"
  proof (cases "stored I k = Plain Undefined")
    case True
    have "pget W F I k = (alloc W, set_obj I (put k (SArr (nextid W) []) (obj I)), Inr (SArr (nextid W) []))"
      using lk ty acc True by (simp add: pget.simps)
    then show ?thesis using that [of "alloc W" "set_obj I (put k (SArr (nextid W) []) (obj I))" "nextid W" "[]"] acc
      by simp
  next
    case False
    with P obtain i es where s: "stored I k = SArr i es" by blast
    have "pget W F I k = (W, I, Inr (SArr i es))"
      using pget_container [OF lk _ _ acc] ty s by simp
    then show ?thesis using that [of W I i es] s acc by simp
  qed
  obtain Wb es1 r1 where pe: "push_each Wa (foptions F) (named k fs0) [] (toArray_value dv) = (Wb, es1, r1)"
    by (cases "push_each Wa (foptions F) (named k fs0) [] (toArray_value dv)") auto
  have tc: "typecast Wa (foptions F) (named k fs0) dv (SArr i es0)
      = (Wb, SArr i es1, case r1 of Inl e \<Rightarrow> Inl e | Inr u \<Rightarrow> Inr (SArr i es1))"
    using ob nn ty pe by (cases r1) (auto simp: typecast.simps)
  have "(W1, I1) = (case r1 of Inl e \<Rightarrow> (Wb, push_error (set_obj Ia (put k (SArr i es1) (obj Ia))) e)
                     | Inr u \<Rightarrow> (Wb, set_obj Ia (put k (SArr i es1) (obj Ia))))"
    using se lk pg tc ty by (cases r1) (simp_all add: setter.simps)
  then have "stored I1 k = SArr i es1 \<and> k \<in> set (accessors I1)"
    using aa by (cases r1) auto
  with pe show ?thesis by blast
qed

lemma apply_defaults_accessors:
  "apply_defaults W F I ks = (W2, I2, r) \<Longrightarrow> k \<in> set (accessors I) \<Longrightarrow> k \<in> set (accessors I2)"
proof (induction ks arbitrary: W I)
  case Nil
  then show ?case by simp
next
  case (Cons k' ks)
  show ?case
  proof (cases "lookup_field W F k'")
    case None
    with Cons show ?thesis by simp
  next
    case (Some fs)
    show ?thesis
    proof (cases "declared_default (props fs)")
      case None
      with Cons Some show ?thesis by simp
    next
      case dS: (Some d')
      show ?thesis
      proof (cases "eval_default d'")
        case (Inl e)
        with Cons.prems Some dS show ?thesis by simp
      next
        case (Inr dv')
        obtain W1 I1 where se: "setter (length (schema_keys W F)) True W F I k' dv' = (W1, I1)"
          by (cases "setter (length (schema_keys W F)) True W F I k' dv'") auto
        have a1: "k \<in> set (accessors I1)" using setter_accessors [OF se Cons.prems(2)] .
        from Cons.prems(1) Some dS Inr se
        have "apply_defaults W1 F I1 ks = (W2, I2, r)" by simp
        from Cons.IH [OF this a1] show ?thesis .
      qed
    qed
  qed
qed




subsection \<open>Containers keep their identity\<close>

lemma typecast_undefined:
  assumes "ptype (props fs) = TArray \<or> ptype (props fs) = TObject"
  shows "\<exists>e. typecast W opts fs Undefined orig = (W, orig, Inl e)"
  using assms by (auto simp: typecast.simps)

lemma setter_undef_step:
  assumes st: "map_of (fschema F) k = Some fs0"
    and ty: "ptype (props fs0) = TArray \<or> ptype (props fs0) = TObject"
    and ih: "\<And>m W I k' W2 I2. n = Suc m \<Longrightarrow> pset m W F I k' Undefined = (W2, I2) \<Longrightarrow>
               k \<in> set (accessors I) \<Longrightarrow> container (stored I k) \<Longrightarrow>
               stored I2 k = stored I k \<and> k \<in> set (accessors I2)"
    and run: "setter n lift W F I k' Undefined = (W2, I2)"
    and acc: "k \<in> set (accessors I)" and co: "container (stored I k)"
  shows "stored I2 k = stored I k \<and> k \<in> set (accessors I2)"
proof (cases "lookup_field W F k'")
  case None
  with run acc show ?thesis by (simp add: setter.simps)
next
  case (Some fs)
  show ?thesis
  proof (cases "readOnly (props fs) \<and> \<not> lift")
    case True
    with run Some acc show ?thesis by (simp add: setter.simps)
  next
    case nro: False
    show ?thesis
    proof (cases "k' = k")
      case True
      have fs: "fs = named k fs0" using Some lookup_static [OF st, of W] True by simp
      have ty': "ptype (props fs) = TArray \<or> ptype (props fs) = TObject" using ty fs by simp
      then have na: "ptype (props fs) \<noteq> TAlias" by auto
      have pg: "pget W F I k = (W, I, Inr (stored I k))"
        using Some na co acc True pget_container by simp
      obtain e where tc: "typecast W (foptions F) fs Undefined (stored I k) = (W, stored I k, Inl e)"
        using typecast_undefined [OF ty'] by blast
      have "I2 = push_error I e"
        using run Some nro pg tc na True store_same [of I k]
        by (auto simp: setter.simps)
      with acc show ?thesis by simp
    next
      case ne': False
      then have ne: "k \<noteq> k'" by auto
      obtain W1 I1 r where pg: "pget W F I k' = (W1, I1, r)" by (cases "pget W F I k'") auto
      have s1: "stored I1 k = stored I k" using pg ne by (rule pget_stored_other)
      have a1: "k \<in> set (accessors I1)" using pget_frame [OF pg] acc by simp
      show ?thesis
      proof (cases r)
        case (Inl e)
        with run Some nro pg s1 a1 show ?thesis by (auto simp: setter.simps)
      next
        case (Inr orig)
        show ?thesis
        proof (cases "ptype (props fs) = TAlias")
          case al: True
          have pga: "pget W F I k' = (W, I, Inr (if k' \<in> set (accessors I) then stored I (pindex (props fs))
              else Plain (case map_of (own I) k' of Some v \<Rightarrow> v | None \<Rightarrow> Undefined)))"
            using Some al by (rule pget_alias)
          with pg Inr have eq: "W1 = W" "I1 = I" by simp_all
          have tc: "typecast W (foptions F) fs Undefined orig = (W, orig, Inr (Plain Undefined))"
            using al by (rule typecast_alias)
          define I3 where "I3 = (case orig of Plain y \<Rightarrow> I | _ \<Rightarrow> set_obj I (put (pindex (props fs)) orig (obj I)))"
          have s3: "stored I3 k = stored I k"
          proof (cases "pindex (props fs) = k")
            case True
            show ?thesis
            proof (cases "k' \<in> set (accessors I)")
              case True
              with pga pg Inr have o: "orig = stored I k" using \<open>pindex (props fs) = k\<close> by simp
              have "I3 = (case stored I k of Plain y \<Rightarrow> I | _ \<Rightarrow> set_obj I (put k (stored I k) (obj I)))"
                unfolding I3_def o \<open>pindex (props fs) = k\<close> ..
              then show ?thesis using store_same [of I k] by simp
            next
              case False
              with pga pg Inr show ?thesis by (auto simp: I3_def)
            qed
          next
            case False
            then show ?thesis by (cases orig) (simp_all add: I3_def stored_put_other)
          qed
          have a3: "k \<in> set (accessors I3)" using acc by (cases orig) (simp_all add: I3_def)
          show ?thesis
          proof (cases n)
            case 0
            with run Some nro pg Inr eq tc al
            have "I2 = push_error I3 (TypeError ''Maximum call stack size exceeded'')"
              by (auto simp: setter.simps I3_def [symmetric])
            with s3 a3 show ?thesis by simp
          next
            case (Suc m)
            with run Some nro pg Inr eq tc al
            have "pset m W F I3 (pindex (props fs)) Undefined = (W2, I2)"
              by (simp add: setter.simps I3_def [symmetric])
            from ih [OF Suc this a3] s3 co show ?thesis by simp
          qed
        next
          case na: False
          obtain W3 orig' r' where tc: "typecast W1 (foptions F) fs Undefined orig = (W3, orig', r')"
            by (cases "typecast W1 (foptions F) fs Undefined orig") auto
          define I3 where "I3 = (case orig' of Plain y \<Rightarrow> I1 | _ \<Rightarrow> set_obj I1 (put k' orig' (obj I1)))"
          have s3: "stored I3 k = stored I k"
            using s1 ne by (cases orig') (simp_all add: I3_def stored_put_other)
          have a3: "k \<in> set (accessors I3)" using a1 by (cases orig') (simp_all add: I3_def)
          from run Some nro pg Inr tc na
          have "(W2, I2) = (case r' of Inl e \<Rightarrow> (W3, push_error I3 e)
                             | Inr x \<Rightarrow> (W3, set_obj I3 (put k' x (obj I3))))"
            by (cases r') (auto simp: setter.simps I3_def [symmetric])
          then show ?thesis using s3 a3 ne by (cases r') (auto simp: stored_put_other)
        qed
      qed
    qed
  qed
qed

lemma pset_undef_step:
  assumes ih: "\<And>lift W I k' W2 I2. setter n lift W F I k' Undefined = (W2, I2) \<Longrightarrow>
               k \<in> set (accessors I) \<Longrightarrow> container (stored I k) \<Longrightarrow>
               stored I2 k = stored I k \<and> k \<in> set (accessors I2)"
    and run: "pset n W F I k' Undefined = (W2, I2)"
    and acc: "k \<in> set (accessors I)" and co: "container (stored I k)"
  shows "stored I2 k = stored I k \<and> k \<in> set (accessors I2)"
proof -
  define name where "name = (if keysIgnoreCase (foptions F) \<and> \<not> schema_has W F k'
                 then getIndex W F k' else k')"
  show ?thesis
  proof (cases "schema_has W F name")
    case None: False
    show ?thesis
    proof (cases "strict (foptions F)")
      case True
      with run None acc show ?thesis by (simp add: pset.simps name_def [symmetric])
    next
      case False
      with run None have "setter n False (add_dyn W F name) F (add_accessor I name) name Undefined = (W2, I2)"
        by (simp add: pset.simps name_def [symmetric])
      from ih [OF this] acc co show ?thesis by simp
    qed
  next
    case Some: True
    show ?thesis
    proof (cases "name \<in> set (accessors I)")
      case True
      with run Some have "setter n False W F I name Undefined = (W2, I2)"
        by (simp add: pset.simps name_def [symmetric])
      from ih [OF this] acc co show ?thesis by simp
    next
      case False
      with run Some acc show ?thesis by (auto simp: pset.simps name_def [symmetric] split: if_splits)
    qed
  qed
qed

lemma pset_undef_frame:
  assumes st: "map_of (fschema F) k = Some fs0"
    and ty: "ptype (props fs0) = TArray \<or> ptype (props fs0) = TObject"
  shows "pset n W F I k' Undefined = (W2, I2) \<Longrightarrow> k \<in> set (accessors I) \<Longrightarrow>
         container (stored I k) \<Longrightarrow> stored I2 k = stored I k \<and> k \<in> set (accessors I2)"
proof (induction n arbitrary: W I k' W2 I2)
  case 0
  have S: "stored J2 k = stored J k \<and> k \<in> set (accessors J2)"
    if "setter 0 lift V F J j Undefined = (V2, J2)" "k \<in> set (accessors J)" "container (stored J k)"
    for lift V J j V2 J2
    using setter_undef_step [OF st ty _ that] by simp
  show ?case using pset_undef_step [OF S "0.prems"] by simp
next
  case (Suc n)
  have S: "stored J2 k = stored J k \<and> k \<in> set (accessors J2)"
    if "setter (Suc n) lift V F J j Undefined = (V2, J2)" "k \<in> set (accessors J)" "container (stored J k)"
    for lift V J j V2 J2
    using setter_undef_step [OF st ty _ that] Suc.IH by blast
  show ?case using pset_undef_step [OF S Suc.prems] by simp
qed

lemma clearField_other:
  assumes st: "map_of (fschema F) k = Some fs0"
    and ty: "ptype (props fs0) = TArray \<or> ptype (props fs0) = TObject"
    and ne: "k \<noteq> k'" and run: "clearField W F I k' = (W1, I1, r)"
    and acc: "k \<in> set (accessors I)" and co: "container (stored I k)"
  shows "stored I1 k = stored I k \<and> k \<in> set (accessors I1)"
proof (cases "lookup_field W F k'")
  case None
  with run acc show ?thesis by (simp add: clearField.simps)
next
  case (Some fs)
  show ?thesis
  proof (cases "isAlias (props fs)")
    case True
    with run Some acc show ?thesis by (simp add: clearField.simps)
  next
    case nal: False
    obtain V J x where pg: "pget W F I k' = (V, J, x)" by (cases "pget W F I k'") auto
    have sJ: "stored J k = stored I k" using pg ne by (rule pget_stored_other)
    have aJ: "k \<in> set (accessors J)" using pget_frame [OF pg] acc by simp
    consider (obj) "ptype (props fs) = TObject" | (arr) "ptype (props fs) = TArray"
      | (ali) "ptype (props fs) = TAlias" | (oth) "ptype (props fs) \<noteq> TObject"
          "ptype (props fs) \<noteq> TArray" "ptype (props fs) \<noteq> TAlias"
      by blast
    then show ?thesis
    proof cases
      case obj
      with run Some nal pg sJ aJ ne show ?thesis
        by (auto simp: clearField.simps stored_put_other
              split: sum.splits sval.splits option.splits prod.splits)
    next
      case arr
      with run Some nal pg sJ aJ ne show ?thesis
        by (auto simp: clearField.simps stored_put_other
              split: sum.splits sval.splits option.splits prod.splits)
    next
      case ali
      obtain V2 J2 where ps: "pset (length (schema_keys W F)) W F I (pindex (props fs)) Undefined = (V2, J2)"
        by (cases "pset (length (schema_keys W F)) W F I (pindex (props fs)) Undefined") auto
      have "stored J2 k = stored I k \<and> k \<in> set (accessors J2)"
        using pset_undef_frame [OF st ty ps acc co] .
      moreover have "I1 = J2" using run Some nal ali ps by (simp add: clearField.simps)
      ultimately show ?thesis by simp
    next
      case oth
      with run Some nal acc ne show ?thesis
        by (auto simp: clearField.simps stored_put_other)
    qed
  qed
qed

lemma clearField_self_array:
  assumes st: "map_of (fschema F) k = Some fs0" and ty: "ptype (props fs0) = TArray"
    and nal: "\<not> isAlias (props fs0)" and acc: "k \<in> set (accessors I)"
    and sa: "stored I k = SArr i es"
  shows "clearField W F I k = (W, set_obj I (put k (SArr i []) (obj I)), Inr ())"
proof -
  have lk: "lookup_field W F k = Some (named k fs0)" using st by (rule lookup_static)
  have pg: "pget W F I k = (W, I, Inr (SArr i es))"
    using pget_container [OF lk _ _ acc] ty sa by simp
  show ?thesis using lk ty nal pg by (simp add: clearField.simps named_def)
qed

lemma clearField_self_object:
  assumes st: "map_of (fschema F) k = Some fs0" and ty: "ptype (props fs0) = TObject"
    and ot: "objectType fs0 = Some F'" and nal: "\<not> isAlias (props fs0)"
    and acc: "k \<in> set (accessors I)" and sa: "stored I k = SInst i J"
    and run: "clearField W F I k = (W1, I1, r)"
  shows "(\<exists>J'. stored I1 k = SInst i J' \<and> clear W F' J = (W1, J', r)) \<and> k \<in> set (accessors I1)"
proof -
  have lk: "lookup_field W F k = Some (named k fs0)" using st by (rule lookup_static)
  have pg: "pget W F I k = (W, I, Inr (SInst i J))"
    using pget_container [OF lk _ _ acc] ty sa by simp
  obtain W2 J2 r2 where cl: "clear W F' J = (W2, J2, r2)" by (cases "clear W F' J") auto
  have "clearField W F I k = (W2, set_obj I (put k (SInst i J2) (obj I)), r2)"
    using lk ty ot nal pg cl by (simp add: clearField.simps clear_def)
  with run cl acc show ?thesis by auto
qed

lemma clear_fields_object:
  assumes st: "map_of (fschema F) k = Some fs0" and ty: "ptype (props fs0) = TObject"
    and ot: "objectType fs0 = Some F'" and nal: "\<not> isAlias (props fs0)"
  shows "clear_fields W F I ks = (W2, I2, r) \<Longrightarrow> distinct ks \<Longrightarrow> k \<in> set (accessors I) \<Longrightarrow>
         stored I k = SInst i J \<Longrightarrow>
         (\<exists>J'. stored I2 k = SInst i J' \<and> (k \<notin> set ks \<longrightarrow> J' = J) \<and>
               (r = Inr () \<longrightarrow> k \<in> set ks \<longrightarrow> (\<exists>Wa Wb. clear Wa F' J = (Wb, J', Inr ()))))"
proof (induction ks arbitrary: W I J)
  case Nil
  then show ?case by auto
next
  case (Cons k' ks)
  obtain W1 I1 r1 where cf: "clearField W F I k' = (W1, I1, r1)"
    by (cases "clearField W F I k'") auto
  have ty': "ptype (props fs0) = TArray \<or> ptype (props fs0) = TObject" using ty by simp
  have dk: "distinct ks" and nk: "k' \<notin> set ks" using Cons.prems(2) by simp_all
  show ?case
  proof (cases "k' = k")
    case True
    have cf': "clearField W F I k = (W1, I1, r1)" using cf True by simp
    have a1: "k \<in> set (accessors I1)"
      using clearField_self_object [OF st ty ot nal Cons.prems(3,4) cf'] by simp
    obtain J1 where s1: "stored I1 k = SInst i J1" and c1: "clear W F' J = (W1, J1, r1)"
      using clearField_self_object [OF st ty ot nal Cons.prems(3,4) cf'] by blast
    show ?thesis
    proof (cases r1)
      case (Inl e)
      with Cons.prems(1) cf s1 True show ?thesis by auto
    next
      case (Inr u)
      with Cons.prems(1) cf have "clear_fields W1 F I1 ks = (W2, I2, r)" by simp
      from Cons.IH [OF this dk a1 s1] nk True
      have "stored I2 k = SInst i J1" by auto
      with c1 Inr True show ?thesis by auto
    qed
  next
    case False
    then have ne: "k \<noteq> k'" by auto
    from clearField_other [OF st ty' ne cf Cons.prems(3)] Cons.prems(4)
    have s1: "stored I1 k = SInst i J" and a1: "k \<in> set (accessors I1)" by auto
    show ?thesis
    proof (cases r1)
      case (Inl e)
      with Cons.prems(1) cf s1 show ?thesis by auto
    next
      case (Inr u)
      with Cons.prems(1) cf have "clear_fields W1 F I1 ks = (W2, I2, r)" by simp
      from Cons.IH [OF this dk a1 s1] False show ?thesis by auto
    qed
  qed
qed

lemma clear_fields_identity:
  assumes st: "map_of (fschema F) k = Some fs0" and ty: "ptype (props fs0) = TObject"
  shows "clear_fields W F I ks = (W2, I2, r) \<Longrightarrow> k \<in> set (accessors I) \<Longrightarrow>
         stored I k = SInst i J \<Longrightarrow> (\<exists>J'. stored I2 k = SInst i J')"
proof (induction ks arbitrary: W I J)
  case Nil
  then show ?case by auto
next
  case (Cons k' ks)
  obtain W1 I1 r1 where cf: "clearField W F I k' = (W1, I1, r1)"
    by (cases "clearField W F I k'") auto
  have ty': "ptype (props fs0) = TArray \<or> ptype (props fs0) = TObject" using ty by simp
  have step: "(\<exists>J1. stored I1 k = SInst i J1) \<and> k \<in> set (accessors I1)"
  proof (cases "k' = k")
    case True
    have lk: "lookup_field W F k = Some (named k fs0)" using st by (rule lookup_static)
    have pg: "pget W F I k = (W, I, Inr (SInst i J))"
      using pget_container [OF lk _ _ Cons.prems(2)] ty Cons.prems(3) by simp
    show ?thesis using lk ty pg cf True Cons.prems(2,3)
      by (auto simp: clearField.simps split: if_splits option.splits prod.splits)
  next
    case False
    then have "k \<noteq> k'" by auto
    from clearField_other [OF st ty' this cf Cons.prems(2)] Cons.prems(3)
    show ?thesis by auto
  qed
  then obtain J1 where s1: "stored I1 k = SInst i J1" and a1: "k \<in> set (accessors I1)" by blast
  show ?case
  proof (cases r1)
    case (Inl e)
    with Cons.prems(1) cf s1 show ?thesis by auto
  next
    case (Inr u)
    with Cons.prems(1) cf have "clear_fields W1 F I1 ks = (W2, I2, r)" by simp
    from Cons.IH [OF this a1 s1] show ?thesis .
  qed
qed

lemma clear_fields_array:
  assumes st: "map_of (fschema F) k = Some fs0" and ty: "ptype (props fs0) = TArray"
  shows "clear_fields W F I ks = (W2, I2, r) \<Longrightarrow> k \<in> set (accessors I) \<Longrightarrow> stored I k = SArr i es \<Longrightarrow>
         (\<exists>es'. stored I2 k = SArr i es') \<and>
         (r = Inr () \<longrightarrow> \<not> isAlias (props fs0) \<longrightarrow> k \<in> set ks \<or> es = [] \<longrightarrow> stored I2 k = SArr i [])"
proof (induction ks arbitrary: W I es)
  case Nil
  then show ?case by auto
next
  case (Cons k' ks)
  obtain W1 I1 r1 where cf: "clearField W F I k' = (W1, I1, r1)"
    by (cases "clearField W F I k'") auto
  have ty': "ptype (props fs0) = TArray \<or> ptype (props fs0) = TObject" using ty by simp
  have step: "(\<exists>es1. stored I1 k = SArr i es1 \<and>
                 (r1 = Inr () \<longrightarrow> \<not> isAlias (props fs0) \<longrightarrow> k' = k \<or> es = [] \<longrightarrow> es1 = [])) \<and>
              k \<in> set (accessors I1)"
  proof (cases "k' = k")
    case True
    show ?thesis
    proof (cases "isAlias (props fs0)")
      case True
      with cf \<open>k' = k\<close> lookup_static [OF st, of W] Cons.prems show ?thesis
        by (auto simp: clearField.simps)
    next
      case False
      from clearField_self_array [OF st ty False Cons.prems(2,3), of W] cf True Cons.prems(2)
      show ?thesis by auto
    qed
  next
    case False
    then have "k \<noteq> k'" by auto
    from clearField_other [OF st ty' this cf Cons.prems(2)] Cons.prems(3) False
    show ?thesis by auto
  qed
  then obtain es1 where s1: "stored I1 k = SArr i es1"
    and e1: "r1 = Inr () \<longrightarrow> \<not> isAlias (props fs0) \<longrightarrow> k' = k \<or> es = [] \<longrightarrow> es1 = []"
    and a1: "k \<in> set (accessors I1)" by blast
  show ?case
  proof (cases r1)
    case (Inl e)
    with Cons.prems(1) cf s1 show ?thesis by auto
  next
    case (Inr u)
    with Cons.prems(1) cf have "clear_fields W1 F I1 ks = (W2, I2, r)" by simp
    from Cons.IH [OF this a1 s1] e1 Inr show ?thesis by auto
  qed
qed

lemma null_write:
  assumes lk: "lookup_field W F k = Some fs" and acc: "k \<in> set (accessors I)"
    and ro: "\<not> readOnly (props fs)" and ty: "ptype (props fs) = TArray"
    and sa: "stored I k = SArr i es" and pn: "preserveNull (foptions F)"
  shows "assign W F I k Null = (W, set_obj I (put k (Plain Null) (obj I)))"
proof -
  have pg: "pget W F I k = (W, I, Inr (SArr i es))"
    using pget_container [OF lk _ _ acc] ty sa by simp
  have ty': "ptype (props fs) = TArray \<or> ptype (props fs) = TObject" using ty by simp
  show ?thesis
    using setter_null_kept [OF lk acc ro ty' pn pg] assign_declared [OF lk acc] by simp
qed

text \<open>
  C8, amended. Let an array field hold its container. A write of \<open>null\<close> where \<open>preserveNull\<close> is
  on, to a field that is not \<open>readOnly\<close>, stores \<open>null\<close> in place of the container, and the next
  read of the field creates an empty container with the next fresh identity. After every other
  write the field holds the container of the same identity; when the field is not \<open>readOnly\<close>
  and the value is structural and all its elements are admitted, the container holds exactly
  what \<open>push\<close> made of them on the emptied container. After \<open>clear()\<close> the field holds the
  container of the same identity, empty when \<open>clear()\<close> has completed and the field is not
  marked \<open>isAlias\<close>. Let an object field hold a nested instance. After \<open>clear()\<close> it holds an
  instance of the same identity; when \<open>clear()\<close> has completed, the field is not marked
  \<open>isAlias\<close> and has a nested schema, that instance is what a completed \<open>clear()\<close> of the nested
  instance has left (the keys of the schema being distinct).
\<close>

theorem C8_identity_kept:
  assumes st: "map_of (fschema F) k = Some fs0" and acc: "k \<in> set (accessors I)"
  shows
   "(ptype (props fs0) = TArray \<longrightarrow> stored I k = SArr i es \<longrightarrow>
       (if v = Null \<and> preserveNull (foptions F) \<and> \<not> readOnly (props fs0) then
          assign W F I k v = (W, set_obj I (put k (Plain Null) (obj I))) \<and>
          pget W F (set_obj I (put k (Plain Null) (obj I))) k
            = (alloc W, set_obj I (put k (SArr (nextid W) []) (obj I)), Inr (SArr (nextid W) []))
        else (\<exists>W' I' es'. assign W F I k v = (W', I') \<and> stored I' k = SArr i es')) \<and>
       (\<not> readOnly (props fs0) \<longrightarrow> isObject v \<longrightarrow>
          (\<forall>W1 es1 u. push_each W (foptions F) (named k fs0) [] (toArray_value v)
                         = (W1, es1, Inr u) \<longrightarrow>
             assign W F I k v = (W1, set_obj I (put k (SArr i es1) (obj I))))) \<and>
       (\<forall>W' I' r. clear W F I = (W', I', r) \<longrightarrow>
          (\<exists>es'. stored I' k = SArr i es') \<and>
          (r = Inr () \<longrightarrow> \<not> isAlias (props fs0) \<longrightarrow> stored I' k = SArr i []))) \<and>
    (ptype (props fs0) = TObject \<longrightarrow> stored I k = SInst i J \<longrightarrow>
       (\<forall>W' I' r. clear W F I = (W', I', r) \<longrightarrow>
          (\<exists>J'. stored I' k = SInst i J' \<and>
             (r = Inr () \<longrightarrow> \<not> isAlias (props fs0) \<longrightarrow> distinct (schema_keys W F) \<longrightarrow>
              (\<forall>F'. objectType fs0 = Some F' \<longrightarrow> (\<exists>Wa Wb. clear Wa F' J = (Wb, J', Inr ())))))))"
proof -
  have lk: "lookup_field W F k = Some (named k fs0)" using st by (rule lookup_static)
  have kin: "k \<in> set (schema_keys W F)"
    using map_of_SomeD [OF st] by (force simp: schema_keys_def)
  have N: "assign W F I k v = (W, set_obj I (put k (Plain Null) (obj I))) \<and>
          pget W F (set_obj I (put k (Plain Null) (obj I))) k
            = (alloc W, set_obj I (put k (SArr (nextid W) []) (obj I)), Inr (SArr (nextid W) []))"
    if ty: "ptype (props fs0) = TArray" and sa: "stored I k = SArr i es"
      and c: "v = Null \<and> preserveNull (foptions F) \<and> \<not> readOnly (props fs0)"
  proof -
    have a: "assign W F I k v = (W, set_obj I (put k (Plain Null) (obj I)))"
      using null_write [OF lk acc _ _ sa] ty c by simp
    have "pget W F (set_obj I (put k (Plain Null) (obj I))) k
            = (alloc W, set_obj I (put k (SArr (nextid W) []) (obj I)), Inr (SArr (nextid W) []))"
      using lk ty acc by (simp add: pget.simps)
    with a show ?thesis by simp
  qed
  have A: "\<exists>W' I' es'. assign W F I k v = (W', I') \<and> stored I' k = SArr i es'"
    if ty: "ptype (props fs0) = TArray" and sa: "stored I k = SArr i es"
      and c: "\<not> (v = Null \<and> preserveNull (foptions F) \<and> \<not> readOnly (props fs0))"
  proof (cases "readOnly (props fs0)")
    case True
    then have "assign W F I k v = (W, I)"
      using lk acc by (simp add: assign_def pset.simps setter.simps schema_has_def)
    with sa show ?thesis by auto
  next
    case ro: False
    then have ro': "\<not> readOnly (props (named k fs0))" by simp
    have ty': "ptype (props (named k fs0)) = TArray" using ty by simp
    have nn: "\<not> (v = Null \<and> preserveNull (foptions F))" using c ro by simp
    show ?thesis
    proof (cases "isObject v")
      case False
      have pg: "pget W F I k = (W, I, Inr (SArr i es))"
        using pget_container [OF lk _ _ acc] ty sa by simp
      have "\<exists>msg. setter (length (schema_keys W F)) False W F I k v
               = (W, push_error I (SetterError msg v (Some k)))"
        using setter_not_structural [OF lk acc ro' _ False nn pg] ty by simp
      then obtain e where "assign W F I k v = (W, push_error I e)"
        using assign_declared [OF lk acc] by auto
      with sa show ?thesis by auto
    next
      case True
      note aw = array_write [OF lk ty' ro' acc sa True]
      obtain W1 es1 r1 where pe: "push_each W (foptions F) (named k fs0) [] (toArray_value v) = (W1, es1, r1)"
        by (cases "push_each W (foptions F) (named k fs0) [] (toArray_value v)") auto
      show ?thesis
      proof (cases r1)
        case (Inl e)
        with aw pe
        have "assign W F I k v = (W1, push_error (set_obj I (put k (SArr i es1) (obj I))) e)" by simp
        then show ?thesis by auto
      next
        case (Inr u)
        with aw pe
        have "assign W F I k v = (W1, set_obj I (put k (SArr i es1) (obj I)))" by simp
        then show ?thesis by auto
      qed
    qed
  qed
  have P: "assign W F I k v = (W1, set_obj I (put k (SArr i es1) (obj I)))"
    if ty: "ptype (props fs0) = TArray" and sa: "stored I k = SArr i es"
      and ro: "\<not> readOnly (props fs0)" and ob: "isObject v"
      and pe: "push_each W (foptions F) (named k fs0) [] (toArray_value v) = (W1, es1, Inr u)"
    for W1 es1 u
    using array_write [OF lk _ _ acc sa ob] ty ro pe by simp
  have B: "(\<exists>es'. stored I' k = SArr i es') \<and>
          (r = Inr () \<longrightarrow> \<not> isAlias (props fs0) \<longrightarrow> stored I' k = SArr i [])"
    if ty: "ptype (props fs0) = TArray" and sa: "stored I k = SArr i es"
      and cl: "clear W F I = (W', I', r)" for W' I' r
    using clear_fields_array [OF st ty, of W I "schema_keys W F" W' I' r i es] cl acc sa kin
    by (simp add: clear_def)
  have C: "\<exists>J'. stored I' k = SInst i J' \<and>
             (r = Inr () \<longrightarrow> \<not> isAlias (props fs0) \<longrightarrow> distinct (schema_keys W F) \<longrightarrow>
              (\<forall>F'. objectType fs0 = Some F' \<longrightarrow> (\<exists>Wa Wb. clear Wa F' J = (Wb, J', Inr ()))))"
    if ty: "ptype (props fs0) = TObject" and sa: "stored I k = SInst i J"
      and cl: "clear W F I = (W', I', r)" for W' I' r
  proof -
    have cf: "clear_fields W F I (schema_keys W F) = (W', I', r)" using cl by (simp add: clear_def)
    obtain J' where s: "stored I' k = SInst i J'"
      using clear_fields_identity [OF st ty cf acc sa] by blast
    have "\<exists>Wa Wb. clear Wa F' J = (Wb, J', Inr ())"
      if "r = Inr ()" "\<not> isAlias (props fs0)" "distinct (schema_keys W F)" "objectType fs0 = Some F'" for F'
      using clear_fields_object [OF st ty that(4) that(2) cf that(3) acc sa] s that(1) kin by auto
    with s show ?thesis by blast
  qed
  show ?thesis using N A P B C by (simp only: split: if_splits) blast
qed

text \<open>
  C8, as stated, on \<open>{xs: Array}\<close> with \<open>preserveNull: true\<close>: the container with identity 0
  holds \<open>[1]\<close>; the write of \<open>null\<close> is accepted and replaces it by \<open>null\<close>, and the next read
  creates a container with identity 1.
\<close>

theorem C8_null_replaces_container:
  "construct world0 nullable_factory (Obj [(''xs'', Arr [Num 1])])
     = (alloc world0, Inr (Inst [(''xs'', SArr 0 [Plain (Num 1)])] [] [''xs''] [])) \<and>
   assign (alloc world0) nullable_factory (Inst [(''xs'', SArr 0 [Plain (Num 1)])] [] [''xs''] []) ''xs'' Null
     = (alloc world0, Inst [(''xs'', Plain Null)] [] [''xs''] []) \<and>
   pget (alloc world0) nullable_factory (Inst [(''xs'', Plain Null)] [] [''xs''] []) ''xs''
     = (alloc (alloc world0), Inst [(''xs'', SArr 1 [])] [] [''xs''] [], Inr (SArr 1 []))"
  by code_simp

theorem C8_identity_kept_witness:
  "assign world0 numbers_factory (Inst [(''xs'', SArr 0 [Plain (Num 1), Plain (Num 2)])] [] [''xs''] [])
       ''xs'' (Arr [Num 3])
     = (world0, set_obj (Inst [(''xs'', SArr 0 [Plain (Num 1), Plain (Num 2)])] [] [''xs''] [])
                  (put ''xs'' (SArr 0 [Plain (Num 3)]) [(''xs'', SArr 0 [Plain (Num 1), Plain (Num 2)])])) \<and>
   (\<exists>es'. stored (fst (snd (clear world0 numbers_factory
              (Inst [(''xs'', SArr 0 [Plain (Num 1), Plain (Num 2)])] [] [''xs''] [])))) ''xs'' = SArr 0 es') \<and>
   (\<exists>J'. stored (fst (snd (clear world0 person_factory
              (Inst [(''addr'', SInst 0 (Inst [(''city'', Plain (Str ''NY''))] [] [''city''] []))] [] [''addr''] []))))
            ''addr'' = SInst 0 J' \<and>
          (\<exists>Wa Wb. clear Wa addr_factory (Inst [(''city'', Plain (Str ''NY''))] [] [''city''] []) = (Wb, J', Inr ())))"
proof -
  let ?fs = "FieldSpec (base_props TArray ''xs'') None
                  (Some (FieldSpec ((base_props TNumber [])\<lparr>pname := None\<rparr>) None None))"
  let ?I = "Inst [(''xs'', SArr 0 [Plain (Num 1), Plain (Num 2)])] [] [''xs''] []"
  let ?os = "FieldSpec (base_props TObject ''addr'') (Some addr_factory) None"
  let ?J = "Inst [(''city'', Plain (Str ''NY''))] [] [''city''] []"
  let ?P = "Inst [(''addr'', SInst 0 ?J)] [] [''addr''] []"
  have h1: "map_of (fschema numbers_factory) ''xs'' = Some ?fs" by (simp add: numbers_factory_def)
  have h2: "''xs'' \<in> set (accessors ?I)" by simp
  have g1: "map_of (fschema person_factory) ''addr'' = Some ?os" by (simp add: person_factory_def)
  have g2: "''addr'' \<in> set (accessors ?P)" by simp
  have pe: "push_each world0 (foptions numbers_factory) (named ''xs'' ?fs) []
              (toArray_value (Arr [Num 3])) = (world0, [Plain (Num 3)], Inr ())"
    by code_simp
  have st: "stored ?I ''xs'' = SArr 0 [Plain (Num 1), Plain (Num 2)]" by (simp add: stored_def)
  have sp: "stored ?P ''addr'' = SInst 0 ?J" by (simp add: stored_def)
  obtain W' I' r where cl: "clear world0 numbers_factory ?I = (W', I', r)"
    by (cases "clear world0 numbers_factory ?I") auto
  have cp: "clear world0 person_factory ?P
      = (world0, Inst [(''addr'', SInst 0 (Inst [(''city'', Plain Undefined)] [] [''city''] []))] [] [''addr''] [], Inr ())"
    by code_simp
  have dk: "distinct (schema_keys world0 person_factory)" by code_simp
  note th = C8_identity_kept [OF h1 h2, where i = 0 and es = "[Plain (Num 1), Plain (Num 2)]"
     and v = "Arr [Num 3]" and W = world0]
  note tp = C8_identity_kept [OF g1 g2, where i = 0 and J = ?J and W = world0]
  have a: "assign world0 numbers_factory ?I ''xs'' (Arr [Num 3])
     = (world0, set_obj ?I (put ''xs'' (SArr 0 [Plain (Num 3)]) [(''xs'', SArr 0 [Plain (Num 1), Plain (Num 2)])]))"
    using th pe st by (simp add: base_props_def numbers_factory_def default_options_def)
  have b: "\<exists>es'. stored I' ''xs'' = SArr 0 es'"
    using th st cl by (simp add: base_props_def)
  have c: "\<exists>J'. stored (Inst [(''addr'', SInst 0 (Inst [(''city'', Plain Undefined)] [] [''city''] []))] [] [''addr''] [])
            ''addr'' = SInst 0 J' \<and>
          (\<exists>Wa Wb. clear Wa addr_factory ?J = (Wb, J', Inr ()))"
    using tp sp cp dk by (simp add: base_props_def)
  show ?thesis using a b c cl cp by simp
qed

subsection \<open>The error ledger of nested instances\<close>

lemma sub_errors_skip:
  "nested_factory W F k = None \<Longrightarrow> sub_errors W F I (k # ks) acc = sub_errors W F I ks acc"
  by (auto simp: nested_factory_def split: option.splits if_splits)

lemma clear_sub_errors_skip:
  "nested_factory W F k = None \<Longrightarrow> clear_sub_errors W F I (k # ks) = clear_sub_errors W F I ks"
  by (auto simp: nested_factory_def split: option.splits if_splits)

lemma store_back_same:
  assumes "k \<in> set (accessors I)" "ptype (props fs) \<noteq> TAlias" "stored I k = SInst i J"
  shows "store_back I k fs (SInst i J) = I"
  using assms store_same [of I k] by (simp add: store_back_def)

lemma sub_errors_step:
  assumes nf: "nested_factory W F k = Some F'" and acc: "k \<in> set (accessors I)"
    and sa: "stored I k = SInst i J" and ge: "getErrors W F' J = (W, J, r)"
  shows "sub_errors W F I (k # ks) acc =
    (case r of
       Inl e \<Rightarrow> (W, I, Inl e)
     | Inr es \<Rightarrow>
         (case qualify_all k es of
            Inl e \<Rightarrow> (W, I, Inl e)
          | Inr qs \<Rightarrow> sub_errors W F I ks (acc @ qs)))"
proof -
  from nf obtain fs where lk: "lookup_field W F k = Some fs" and ty: "ptype (props fs) = TObject"
    and ot: "objectType fs = Some F'"
    by (auto simp: nested_factory_def split: option.splits if_splits)
  have pg: "pget W F I k = (W, I, Inr (SInst i J))"
    using pget_container [OF lk _ _ acc] ty sa by simp
  have sb: "store_back I k fs (SInst i J) = I"
    using store_back_same [OF acc _ sa] ty by simp
  show ?thesis
    using lk ty ot pg ge sb by (simp split: sum.splits)
qed

lemma sub_errors_ledger:
  assumes ih: "\<And>F' J. fdepth F' < fdepth F \<Longrightarrow> materialized W F' J \<Longrightarrow>
                 getErrors W F' J = (W, J, ledger W F' J)"
  shows "materialized_fields W F I ks \<Longrightarrow>
         sub_errors W F I ks acc =
           (W, I, case nested_ledgers W F I ks of Inl e \<Rightarrow> Inl e | Inr qs \<Rightarrow> Inr (acc @ qs))"
proof (induction ks arbitrary: acc)
  case Nil
  then show ?case by simp
next
  case (Cons k ks)
  show ?case
  proof (cases "nested_factory W F k")
    case None
    have "sub_errors W F I (k # ks) acc = sub_errors W F I ks acc"
      using None by (rule sub_errors_skip)
    moreover have "materialized_fields W F I ks" using Cons.prems None by simp
    moreover have "nested_ledgers W F I (k # ks) = nested_ledgers W F I ks" using None by simp
    ultimately show ?thesis using Cons.IH by simp
  next
    case (Some F')
    from Cons.prems Some obtain i J where sa: "stored I k = SInst i J"
      and acc: "k \<in> set (accessors I)" and mJ: "materialized W F' J"
      and mr: "materialized_fields W F I ks"
      by (auto split: sval.splits)
    have ge: "getErrors W F' J = (W, J, ledger W F' J)"
      using ih [OF nested_factory_depth [OF Some] mJ] .
    note st = sub_errors_step [OF Some acc sa ge, of ks acc]
    have nl: "nested_ledgers W F I (k # ks) =
      (case ledger W F' J of
                 Inl e \<Rightarrow> Inl e
               | Inr es \<Rightarrow>
                   (case qualify_all k es of
                      Inl e \<Rightarrow> Inl e
                    | Inr qs \<Rightarrow>
                        (case nested_ledgers W F I ks of
                           Inl e \<Rightarrow> Inl e
                         | Inr rest \<Rightarrow> Inr (qs @ rest))))"
      using Some sa by simp
    show ?thesis
    proof (cases "ledger W F' J")
      case (Inl e)
      with st nl show ?thesis by simp
    next
      case (Inr es)
      show ?thesis
      proof (cases "qualify_all k es")
        case (Inl e)
        with st nl Inr show ?thesis by simp
      next
        case qs: (Inr qs)
        from st Inr qs have "sub_errors W F I (k # ks) acc = sub_errors W F I ks (acc @ qs)" by simp
        also have "\<dots> = (W, I, case nested_ledgers W F I ks of Inl e \<Rightarrow> Inl e | Inr rest \<Rightarrow> Inr ((acc @ qs) @ rest))"
          using Cons.IH [OF mr] .
        finally show ?thesis using nl Inr qs by (simp split: sum.splits)
      qed
    qed
  qed
qed

lemma getErrors_ledger: "materialized W F I \<Longrightarrow> getErrors W F I = (W, I, ledger W F I)"
proof (induction "fdepth F" arbitrary: F I rule: less_induct)
  case less
  have ih: "\<And>F' J. fdepth F' < fdepth F \<Longrightarrow> materialized W F' J \<Longrightarrow>
                 getErrors W F' J = (W, J, ledger W F' J)"
    using less.hyps by blast
  have mf: "materialized_fields W F I (schema_keys W F)"
    using less.prems by (simp add: materialized.simps)
  show ?case
    using sub_errors_ledger [OF ih mf, of "errors I"]
    by (simp add: getErrors.simps ledger.simps split: sum.splits)
qed

lemma materialized_fields_cong:
  assumes "\<forall>k \<in> set ks. stored I' k = stored I k" "accessors I' = accessors I"
  shows "materialized_fields W F I' ks = materialized_fields W F I ks"
  using assms by (induction ks) (auto split: option.splits sval.splits)

lemma materialized_fields_mem:
  "materialized_fields W F I ks \<Longrightarrow> k \<in> set ks \<Longrightarrow> nested_factory W F k = Some F' \<Longrightarrow>
   \<exists>i J. stored I k = SInst i J \<and> k \<in> set (accessors I) \<and> materialized W F' J"
  by (induction ks) (auto split: option.splits sval.splits)

lemma clear_sub_errors_step:
  assumes nf: "nested_factory W F k = Some F'" and acc: "k \<in> set (accessors I)"
    and sa: "stored I k = SInst i J" and ce: "clearErrors W F' J = (W, J', Inr ())"
  shows "clear_sub_errors W F I (k # ks)
           = clear_sub_errors W F (set_obj I (put k (SInst i J') (obj I))) ks"
proof -
  from nf obtain fs where lk: "lookup_field W F k = Some fs" and ty: "ptype (props fs) = TObject"
    and ot: "objectType fs = Some F'"
    by (auto simp: nested_factory_def split: option.splits if_splits)
  have pg: "pget W F I k = (W, I, Inr (SInst i J))"
    using pget_container [OF lk _ _ acc] ty sa by simp
  have sb: "store_back I k fs (SInst i J') = set_obj I (put k (SInst i J') (obj I))"
    using acc ty by (simp add: store_back_def)
  show ?thesis
    using lk ty ot pg ce sb by simp
qed

lemma clear_sub_errors_wiped:
  assumes ih: "\<And>F' J. fdepth F' < fdepth F \<Longrightarrow> materialized W F' J \<Longrightarrow>
                 clearErrors W F' J = (W, wiped W F' J, Inr ())"
  shows "materialized_fields W F I ks \<Longrightarrow> distinct ks \<Longrightarrow>
         clear_sub_errors W F I ks = (W, wiped_fields W F I ks, Inr ())"
proof (induction ks arbitrary: I)
  case Nil
  then show ?case by simp
next
  case (Cons k ks)
  have dk: "distinct ks" and nk: "k \<notin> set ks" using Cons.prems(2) by simp_all
  show ?case
  proof (cases "nested_factory W F k")
    case None
    have "clear_sub_errors W F I (k # ks) = clear_sub_errors W F I ks"
      using None by (rule clear_sub_errors_skip)
    moreover have "materialized_fields W F I ks" using Cons.prems None by simp
    moreover have "wiped_fields W F I (k # ks) = wiped_fields W F I ks" using None by simp
    ultimately show ?thesis using Cons.IH dk by simp
  next
    case (Some F')
    from Cons.prems(1) Some obtain i J where sa: "stored I k = SInst i J"
      and acc: "k \<in> set (accessors I)" and mJ: "materialized W F' J"
      and mr: "materialized_fields W F I ks"
      by (auto split: sval.splits)
    have ce: "clearErrors W F' J = (W, wiped W F' J, Inr ())"
      using ih [OF nested_factory_depth [OF Some] mJ] .
    define I' where "I' = set_obj I (put k (SInst i (wiped W F' J)) (obj I))"
    have st: "clear_sub_errors W F I (k # ks) = clear_sub_errors W F I' ks"
      using clear_sub_errors_step [OF Some acc sa ce] by (simp add: I'_def)
    have "\<forall>k' \<in> set ks. stored I' k' = stored I k'"
    proof
      fix x assume "x \<in> set ks"
      then have "x \<noteq> k" using nk by auto
      then show "stored I' x = stored I x" by (simp add: I'_def stored_put_other)
    qed
    then have mr': "materialized_fields W F I' ks"
      using materialized_fields_cong [of ks I' I W F] mr by (simp add: I'_def)
    have w: "wiped_fields W F I (k # ks) = wiped_fields W F I' ks"
      using Some sa by (simp add: I'_def)
    show ?thesis using st w Cons.IH [OF mr' dk] by simp
  qed
qed

lemma clearErrors_wiped:
  "materialized W F I \<Longrightarrow> clearErrors W F I = (W, wiped W F I, Inr ())"
proof (induction "fdepth F" arbitrary: F I rule: less_induct)
  case less
  have ih: "\<And>F' J. fdepth F' < fdepth F \<Longrightarrow> materialized W F' J \<Longrightarrow>
                 clearErrors W F' J = (W, wiped W F' J, Inr ())"
    using less.hyps by blast
  define I0 where "I0 = Inst (obj I) [] (accessors I) (own I)"
  have mf: "materialized_fields W F I (schema_keys W F)" and di: "distinct (schema_keys W F)"
    using less.prems by (simp_all add: materialized.simps)
  have "materialized_fields W F I0 (schema_keys W F)"
    using materialized_fields_cong [of "schema_keys W F" I0 I W F] mf
    by (simp add: I0_def stored_def)
  from clear_sub_errors_wiped [OF ih this di]
  show ?case by (simp add: clearErrors.simps wiped.simps I0_def)
qed

lemma wiped_fields_frame:
  "errors (wiped_fields W F I ks) = errors I \<and> accessors (wiped_fields W F I ks) = accessors I \<and>
   own (wiped_fields W F I ks) = own I"
  by (induction ks arbitrary: I) (auto split: option.splits sval.splits)

lemma errors_wiped: "errors (wiped W F I) = []"
  by (simp add: wiped.simps wiped_fields_frame)

lemma wiped_fields_other:
  "k \<notin> set ks \<Longrightarrow> stored (wiped_fields W F I ks) k = stored I k"
  by (induction ks arbitrary: I) (auto split: option.splits sval.splits simp: stored_put_other)

lemma wiped_fields_plain:
  "nested_factory W F k = None \<Longrightarrow> stored (wiped_fields W F I ks) k = stored I k"
proof (induction ks arbitrary: I)
  case Nil
  then show ?case by simp
next
  case (Cons k' ks)
  show ?case
  proof (cases "nested_factory W F k'")
    case None
    with Cons show ?thesis by simp
  next
    case (Some F')
    then have ne: "k \<noteq> k'" using Cons.prems by auto
    show ?thesis
    proof (cases "stored I k'")
      case (Plain v)
      with Some show ?thesis by simp
    next
      case (SArr i es)
      with Some show ?thesis by simp
    next
      case (SInst i J)
      with Some Cons.IH [OF Cons.prems] ne show ?thesis by (simp add: stored_put_other)
    qed
  qed
qed

lemma wiped_fields_nested:
  "materialized_fields W F I ks \<Longrightarrow> distinct ks \<Longrightarrow> k \<in> set ks \<Longrightarrow>
   nested_factory W F k = Some F' \<Longrightarrow> stored I k = SInst i J \<Longrightarrow>
   stored (wiped_fields W F I ks) k = SInst i (wiped W F' J)"
proof (induction ks arbitrary: I)
  case Nil
  then show ?case by simp
next
  case (Cons k' ks)
  have dk: "distinct ks" and nk: "k' \<notin> set ks" using Cons.prems(2) by simp_all
  show ?case
  proof (cases "k' = k")
    case True
    have "wiped_fields W F I (k' # ks)
            = wiped_fields W F (set_obj I (put k (SInst i (wiped W F' J)) (obj I))) ks"
      using True Cons.prems(4,5) by simp
    moreover have "k \<notin> set ks" using nk True by simp
    ultimately show ?thesis by (simp add: wiped_fields_other)
  next
    case False
    with Cons.prems(3) have kin: "k \<in> set ks" by simp
    show ?thesis
    proof (cases "nested_factory W F k'")
      case None
      with Cons.prems(1) have "materialized_fields W F I ks" by simp
      from Cons.IH [OF this dk kin Cons.prems(4,5)] None show ?thesis by simp
    next
      case (Some G)
      from Cons.prems(1) Some obtain j K where sa: "stored I k' = SInst j K"
        and mr: "materialized_fields W F I ks"
        by (auto split: sval.splits)
      define I' where "I' = set_obj I (put k' (SInst j (wiped W G K)) (obj I))"
      have "\<forall>x \<in> set ks. stored I' x = stored I x"
      proof
        fix x assume "x \<in> set ks"
        then have "x \<noteq> k'" using nk by auto
        then show "stored I' x = stored I x" by (simp add: I'_def stored_put_other)
      qed
      then have mr': "materialized_fields W F I' ks"
        using materialized_fields_cong [of ks I' I W F] mr by (simp add: I'_def)
      have s': "stored I' k = SInst i J"
        using False Cons.prems(5) by (simp add: I'_def stored_put_other)
      have "wiped_fields W F I (k' # ks) = wiped_fields W F I' ks"
        using Some sa by (simp add: I'_def)
      with Cons.IH [OF mr' dk kin Cons.prems(4) s'] show ?thesis by simp
    qed
  qed
qed

lemma wiped_fields_clean:
  assumes ih: "\<And>F' J. fdepth F' < fdepth F \<Longrightarrow> materialized W F' J \<Longrightarrow>
                 materialized W F' (wiped W F' J) \<and> ledger W F' (wiped W F' J) = Inr []"
    and mf: "materialized_fields W F I ks" and di: "distinct ks"
  shows "set ks' \<subseteq> set ks \<Longrightarrow>
         materialized_fields W F (wiped_fields W F I ks) ks' \<and>
         nested_ledgers W F (wiped_fields W F I ks) ks' = Inr []"
proof (induction ks')
  case Nil
  then show ?case by simp
next
  case (Cons k ks')
  have kin: "k \<in> set ks" and sub: "set ks' \<subseteq> set ks" using Cons.prems by simp_all
  note IH = Cons.IH [OF sub]
  show ?case
  proof (cases "nested_factory W F k")
    case None
    with IH show ?thesis by simp
  next
    case (Some F')
    from materialized_fields_mem [OF mf kin Some]
    obtain i J where sa: "stored I k = SInst i J" and acc: "k \<in> set (accessors I)"
      and mJ: "materialized W F' J" by blast
    have s: "stored (wiped_fields W F I ks) k = SInst i (wiped W F' J)"
      using wiped_fields_nested [OF mf di kin Some sa] .
    have a: "k \<in> set (accessors (wiped_fields W F I ks))" using acc by (simp add: wiped_fields_frame)
    note w = ih [OF nested_factory_depth [OF Some] mJ]
    show ?thesis using Some s a w IH by simp
  qed
qed

lemma wiped_clean:
  "materialized W F I \<Longrightarrow> materialized W F (wiped W F I) \<and> ledger W F (wiped W F I) = Inr []"
proof (induction "fdepth F" arbitrary: F I rule: less_induct)
  case less
  have ih: "\<And>F' J. fdepth F' < fdepth F \<Longrightarrow> materialized W F' J \<Longrightarrow>
                 materialized W F' (wiped W F' J) \<and> ledger W F' (wiped W F' J) = Inr []"
    using less.hyps by blast
  define I0 where "I0 = Inst (obj I) [] (accessors I) (own I)"
  have mf: "materialized_fields W F I (schema_keys W F)" and di: "distinct (schema_keys W F)"
    using less.prems by (simp_all add: materialized.simps)
  have m0: "materialized_fields W F I0 (schema_keys W F)"
    using materialized_fields_cong [of "schema_keys W F" I0 I W F] mf
    by (simp add: I0_def stored_def)
  have w: "wiped W F I = wiped_fields W F I0 (schema_keys W F)"
    by (simp add: wiped.simps I0_def)
  have e: "errors (wiped W F I) = []" by (rule errors_wiped)
  from wiped_fields_clean [OF ih m0 di, of "schema_keys W F"]
  show ?case using di e by (simp add: w [symmetric] materialized.simps ledger.simps)
qed




subsection \<open>Decimal length\<close>

lemma length_digits_pos: "length (digits n) > 0"
  by (subst digits.simps) simp

lemma length_digits_le: "length (digits n) \<le> Suc k \<longleftrightarrow> n < 10 ^ Suc k"
proof (induction k arbitrary: n)
  case 0
  show ?case
  proof (cases "n < 10")
    case True then show ?thesis by (subst digits.simps) simp
  next
    case False
    then show ?thesis using length_digits_pos [of "n div 10"] by (subst digits.simps) simp
  qed
next
  case (Suc k)
  show ?case
  proof (cases "n < 10")
    case True
    have "(10::nat) ^ 1 \<le> 10 ^ Suc (Suc k)" by (rule power_increasing) simp_all
    then have "(10::nat) \<le> 10 ^ Suc (Suc k)" by (simp only: power_one_right)
    then have "n < 10 ^ Suc (Suc k)" using True by (rule_tac less_le_trans)
    moreover have "length (digits n) = 1" using True by (subst digits.simps) simp
    ultimately show ?thesis by simp
  next
    case False
    have "length (digits n) = Suc (length (digits (n div 10)))"
      using False by (subst digits.simps) simp
    moreover have "n div 10 < 10 ^ Suc k \<longleftrightarrow> n < 10 ^ Suc (Suc k)"
      by (simp add: less_mult_imp_div_less div_less_iff_less_mult)
    ultimately show ?thesis using Suc.IH [of "n div 10"] by simp
  qed
qed

lemma num_to_string_long:
  "length (num_to_string n) > 10 \<longleftrightarrow> n \<ge> 10000000000 \<or> n \<le> - 1000000000"
proof (cases "n < 0")
  case True
  have "length (digits (nat (- n))) \<le> Suc 8 \<longleftrightarrow> nat (- n) < 10 ^ Suc 8"
    by (rule length_digits_le)
  then show ?thesis using True by (auto simp: num_to_string_def)
next
  case False
  have "length (digits (nat n)) \<le> Suc 9 \<longleftrightarrow> nat n < 10 ^ Suc 9"
    by (rule length_digits_le)
  then show ?thesis using False by (auto simp: num_to_string_def)
qed

subsection \<open>Date coercion\<close>

text \<open>
  The scale of a numeric candidate in the two date paths. \<open>typecast\<close> multiplies by 1000 the
  integers whose decimal form has at most ten characters, which are those strictly between
  \<open>-1000000000\<close> and \<open>10000000000\<close>; the earlier \<open>setter\<close> multiplies every integer up to
  \<open>9999999999\<close>. Both give the same date for \<open>1700000000\<close> and \<open>1700000000000\<close>, and \<open>typecast\<close>
  rejects a string that the date parser cannot read.
\<close>

lemma typecast_date_scale:
  "typecast_date opts p (Num n) =
     (let t = (if - 1000000000 < n \<and> n < 10000000000 then n * 1000 else n)
      in if \<bar>t\<bar> \<le> 8640000000000000 then Inr (Date t)
         else Inl (SetterError ''Could not parse date.'' InvalidDate (pname p)))"
  by (auto simp: typecast_date_def new_Date_def num_to_string_long Let_def)

lemma setter_date_scale:
  "setter_date opts (Num n) orig =
     (let t = (if n \<le> 9999999999 then n * 1000 else n)
      in if \<bar>t\<bar> \<le> 8640000000000000 then Date t else orig)"
  by (auto simp: setter_date_def new_Date_def Let_def)

lemma date_literals_agree:
  "typecast_date opts p (Num 1700000000) = Inr (Date 1700000000000) \<and>
   typecast_date opts p (Num 1700000000000) = Inr (Date 1700000000000) \<and>
   setter_date opts (Num 1700000000) orig = Date 1700000000000 \<and>
   setter_date opts (Num 1700000000000) orig = Date 1700000000000"
  by (simp add: typecast_date_scale setter_date_scale)

lemma typecast_date_string:
  "typecast_date opts p (Str s) =
     (if s = [] then Inr Undefined
      else case dateParse opts s of
             None \<Rightarrow> Inl (SetterError ''Could not parse date.'' NaN (pname p))
           | Some t \<Rightarrow> typecast_date opts p (Num t))"
  by (cases "dateParse opts s") (simp_all add: typecast_date_def Let_def)

text \<open>
  C6. The candidate \<open>-1000000000\<close> is below the threshold of ten billion. \<open>typecast\<close> counts the
  eleven characters of its decimal form, sign included, and takes it as milliseconds; the
  earlier \<open>setter\<close> compares the value with \<open>9999999999\<close> and multiplies it by 1000.
\<close>

theorem C6_negative_not_scaled:
  "(- 1000000000 :: int) < 10000000000 \<and>
   typecast_date default_options (base_props TDate ''d'') (Num (- 1000000000)) = Inr (Date (- 1000000000)) \<and>
   setter_date default_options (Num (- 1000000000)) Undefined = Date (- 1000000000 * 1000)"
  by (simp add: typecast_date_scale setter_date_scale)

subsection \<open>Unique arrays\<close>

text \<open>
  C3. \<open>push(1, 2, 2, 3)\<close> on the empty container of an array field with \<open>unique: true\<close>
  leaves \<open>[1, 2, 2, 3]\<close>: the batch is compared with the present contents only, never with
  itself. Assigning the array \<open>[1, 2, 2, 3]\<close> to the field pushes the elements one by one, and
  that path leaves \<open>[1, 2, 3]\<close>.
\<close>

theorem C3_batch_push_keeps_duplicates:
  "push world0 default_options unique_spec [] [Num 1, Num 2, Num 2, Num 3]
     = (world0, [Plain (Num 1), Plain (Num 2), Plain (Num 2), Plain (Num 3)], Inr ()) \<and>
   typecast world0 default_options unique_spec (Arr [Num 1, Num 2, Num 2, Num 3]) (SArr 0 [])
     = (world0, SArr 0 [Plain (Num 1), Plain (Num 2), Plain (Num 3)],
        Inr (SArr 0 [Plain (Num 1), Plain (Num 2), Plain (Num 3)]))"
  by code_simp

subsection \<open>Defaults that throw\<close>

text \<open>
  C7. A default producer that throws is called by the constructor outside the setter's
  \<open>try\<close>: the construction of an instance of \<open>throwing_factory\<close> throws what the producer
  throws.
\<close>

theorem C7_throwing_producer_escapes:
  "construct world0 throwing_factory (Obj []) = (world0, Inl (Thrown ''boom''))"
  by code_simp

subsection \<open>Output projection, twice\<close>

text \<open>
  C4. An instance of \<open>{b: 'any'}\<close> built from \<open>{b: [1, 2]}\<close>: the first \<open>toObject()\<close> returns
  \<open>{b: [1, 2]}\<close> and empties the stored array (\<open>value.splice(0)\<close>); the second returns \<open>{}\<close>.
\<close>

theorem C4_toObject_twice_differs:
  "construct world0 any_factory (Obj [(''b'', Arr [Num 1, Num 2])])
     = (world0, Inr (Inst [(''b'', Plain (Arr [Num 1, Num 2]))] [] [''b''] [])) \<and>
   toObject world0 any_factory (Inst [(''b'', Plain (Arr [Num 1, Num 2]))] [] [''b''] [])
     = (world0, Inst [(''b'', Plain (Arr []))] [] [''b''] [], Inr (Obj [(''b'', Arr [Num 1, Num 2])])) \<and>
   toObject world0 any_factory (Inst [(''b'', Plain (Arr []))] [] [''b''] [])
     = (world0, Inst [(''b'', Plain (Arr []))] [] [''b''] [], Inr (Obj []))"
  by code_simp

subsection \<open>Round trip\<close>

lemma typecast_string_idem:
  assumes "typecast_string pr v = Inr x"
  shows "typecast_string pr x = Inr x"
proof (cases "x = Undefined")
  case True
  then show ?thesis by (simp add: typecast_string_def)
next
  case False
  define s where "s = (case maxLength pr of Some n \<Rightarrow> if clip pr \<noteq> None then take n (prim_to_string v) else prim_to_string v
                        | None \<Rightarrow> prim_to_string v)"
  have x: "x = Str s" and
    chk: "\<not> (case penum pr of Some es \<Rightarrow> Str s \<notin> set es | None \<Rightarrow> False)"
         "\<not> (case minLength pr of Some m \<Rightarrow> length s < m | None \<Rightarrow> False)"
         "\<not> (case maxLength pr of Some n \<Rightarrow> length s > n | None \<Rightarrow> False)"
         "\<not> (case regex pr of Some r \<Rightarrow> \<not> r s | None \<Rightarrow> False)"
    using assms False unfolding typecast_string_def Let_def s_def [symmetric]
    by (auto split: if_splits)
  have again: "(case maxLength pr of
                  Some n \<Rightarrow> if clip pr \<noteq> None then take n (prim_to_string (Str s)) else prim_to_string (Str s)
                | None \<Rightarrow> prim_to_string (Str s)) = s"
    using chk(3) by (auto split: option.splits)
  show ?thesis
    unfolding x typecast_string_def Let_def again using chk by simp
qed

lemma typecast_number_idem:
  assumes "typecast_number opts pr v = Inr x"
  shows "typecast_number opts pr x = Inr x"
proof (cases "x = Undefined")
  case True
  then show ?thesis by (simp add: typecast_number_def)
next
  case False
  define w where "w = (case (case v of Bool b \<Rightarrow> Num (if b then 1 else 0) | _ \<Rightarrow> v) of
                         Str s \<Rightarrow> Str (filter (\<lambda>c. c \<noteq> CHR '','') s) | u \<Rightarrow> u)"
  obtain n where x: "x = Num n"
    and chk: "\<not> (case pmin pr of Some m \<Rightarrow> n < m | None \<Rightarrow> False)"
             "\<not> (case pmax pr of Some m \<Rightarrow> n > m | None \<Rightarrow> False)"
    using assms False unfolding typecast_number_def Let_def w_def [symmetric]
    by (auto split: if_splits option.splits)
  show ?thesis unfolding x typecast_number_def Let_def using chk by simp
qed

lemma typecast_boolean_idem:
  assumes "typecast_boolean opts pr v = Inr x"
  shows "typecast_boolean opts pr x = Inr x"
proof -
  from assms have "x = Undefined \<or> (\<exists>b. x = Bool b)"
    by (auto simp: typecast_boolean_def split: if_splits option.splits)
  then show ?thesis by (auto simp: typecast_boolean_def)
qed

lemma typecast_date_idem:
  assumes "typecast_date opts pr v = Inr x"
  shows "typecast_date opts pr x = Inr x"
proof -
  define w where "w = (case v of Str s \<Rightarrow> (case dateParse opts s of Some t \<Rightarrow> Num t | None \<Rightarrow> NaN) | _ \<Rightarrow> v)"
  define u where "u = (case w of
                  Num n \<Rightarrow> new_Date (if length (num_to_string n) > 10 then n else n * 1000)
                | _ \<Rightarrow> w)"
  from assms have "x = Undefined \<or> (\<exists>t. x = Date t)"
    unfolding typecast_date_def Let_def w_def [symmetric] u_def [symmetric]
    by (cases u) (auto split: if_splits)
  then show ?thesis by (auto simp: typecast_date_def)
qed

lemma cast_scalar_idem:
  assumes "cast_scalar opts pr v = Inr x"
  shows "cast_scalar opts pr x = Inr x"
proof (cases "v = Null \<and> preserveNull opts")
  case True
  with assms show ?thesis by (simp add: cast_scalar_def)
next
  case False
  show ?thesis
  proof (cases "x = Null \<and> preserveNull opts")
    case True
    then show ?thesis by (simp add: cast_scalar_def)
  next
    case nx: False
    show ?thesis
      using assms False nx
      by (cases "ptype pr")
         (auto simp: cast_scalar_def dest: typecast_string_idem typecast_number_idem
            typecast_boolean_idem typecast_date_idem)
  qed
qed

lemma distinct_key_order: "distinct ks \<Longrightarrow> distinct (key_order ks)"
  by (auto simp: key_order_def)

lemma schema_keys_static:
  "list_all (\<lambda>e. fst e \<noteq> fid F) (dyn W) \<Longrightarrow> schema_keys W F = key_order (map fst (fschema F))"
proof -
  assume "list_all (\<lambda>e. fst e \<noteq> fid F) (dyn W)"
  then have "filter (\<lambda>e. fst e = fid F) (dyn W) = []"
    by (auto simp: list_all_iff filter_empty_conv)
  then show ?thesis by (simp add: schema_keys_def)
qed

lemma flat_lookup:
  assumes "flat F" "e \<in> set (fschema F)"
  shows "lookup_field W F (fst e) = Some (named (fst e) (snd e))"
    and "scalar (ptype (props (snd e)))" and "declared_default (props (snd e)) = None"
proof -
  from assms have d: "distinct (map fst (fschema F))" by (simp add: flat_def)
  from assms(2) have "(fst e, snd e) \<in> set (fschema F)" by simp
  with d have "map_of (fschema F) (fst e) = Some (snd e)" by (rule map_of_is_SomeI)
  then show "lookup_field W F (fst e) = Some (named (fst e) (snd e))" by (rule lookup_static)
  from assms show "scalar (ptype (props (snd e)))" "declared_default (props (snd e)) = None"
    by (auto simp: flat_def list_all_iff)
qed

lemma toObject_fields_flat:
  assumes fl: "flat F"
  shows "set es \<subseteq> set (fschema F) \<Longrightarrow> fst ` set es \<subseteq> set (accessors I) \<Longrightarrow>
         \<forall>e \<in> set es. \<exists>v. stored I (fst e) = Plain v \<and> simple v \<Longrightarrow>
         toObject_fields W F I (map fst es) getObj
           = (W, I, Inr (Obj (project (setUndefined (foptions F)) es (stored I) getObj)))"
proof (induction es arbitrary: getObj)
  case Nil
  then show ?case by simp
next
  case (Cons e es)
  have ein: "e \<in> set (fschema F)" using Cons.prems(1) by simp
  note lk = flat_lookup(1) [OF fl ein, of W] flat_lookup(2,3) [OF fl ein]
  have acc: "fst e \<in> set (accessors I)" using Cons.prems(2) by simp
  obtain v where v: "stored I (fst e) = Plain v" "simple v" using Cons.prems(3) by auto
  have sc: "scalar (ptype (props (named (fst e) (snd e))))" using lk(2) by simp
  have pg: "pget W F I (fst e) = (W, I, Inr (Plain v))"
    using pget_scalar [OF lk(1) acc sc] v by simp
  have ih: "toObject_fields W F I (map fst es) g
           = (W, I, Inr (Obj (project (setUndefined (foptions F)) es (stored I) g)))" for g
    using Cons.IH [of g] Cons.prems by auto
  show ?case
    using lk(1) pg v ih by (cases v) (simp_all)
qed

lemma apply_defaults_flat:
  assumes fl: "flat F"
  shows "set ks \<subseteq> fst ` set (fschema F) \<Longrightarrow> apply_defaults W F I ks = (W, I, Inr ())"
proof (induction ks)
  case Nil
  then show ?case by simp
next
  case (Cons k ks)
  then obtain e where e: "e \<in> set (fschema F)" "fst e = k" by auto
  have "lookup_field W F k = Some (named k (snd e))"
    using flat_lookup(1) [OF fl e(1), of W] e(2) by simp
  moreover have "declared_default (props (named k (snd e))) = None"
    using flat_lookup(3) [OF fl e(1)] by simp
  ultimately show ?case using Cons by simp
qed

lemma cast_scalar_undefined:
  "scalar (ptype pr) \<Longrightarrow> cast_scalar opts pr Undefined = Inr Undefined"
  by (auto simp: scalar_def cast_scalar_def typecast_string_def typecast_number_def
        typecast_boolean_def typecast_date_def)

lemma pset_flat:
  assumes fl: "flat F" and e: "e \<in> set (fschema F)" and acc: "fst e \<in> set (accessors J)"
    and ok: "v = Undefined \<or> (\<not> readOnly (props (snd e)) \<and> cast_scalar (foptions F) (props (snd e)) v = Inr v)"
    and un: "readOnly (props (snd e)) \<longrightarrow> stored J (fst e) = Plain Undefined"
  shows "\<exists>J'. pset n W F J (fst e) v = (W, J') \<and> accessors J' = accessors J \<and>
              (\<forall>k. stored J' k = (if k = fst e then Plain v else stored J k))"
proof -
  let ?k = "fst e"
  have lk: "lookup_field W F ?k = Some (named ?k (snd e))" using flat_lookup(1) [OF fl e] .
  have sc: "scalar (ptype (props (named ?k (snd e))))" using flat_lookup(2) [OF fl e] by simp
  have ps: "pset n W F J ?k v = setter n False W F J ?k v"
    using lk acc by (simp add: pset.simps schema_has_lookup)
  show ?thesis
  proof (cases "readOnly (props (snd e))")
    case True
    with ok have v: "v = Undefined" by auto
    have "setter n False W F J ?k v = (W, J)" using lk True by (simp add: setter.simps)
    with ps un True v show ?thesis by auto
  next
    case False
    have cs: "cast_scalar (foptions F) (props (named ?k (snd e))) v = Inr v"
    proof (cases "v = Undefined")
      case True
      then show ?thesis using cast_scalar_undefined [OF sc] by simp
    next
      case nu: False
      with ok show ?thesis by (simp add: cast_scalar_named)
    qed
    have "setter n False W F J ?k v = (W, set_obj J (put ?k (Plain v) (obj J)))"
      using setter_scalar [OF lk acc _ sc, of False n v] False cs by simp
    with ps show ?thesis by (auto simp: stored_put_other)
  qed
qed

lemma populate_flat:
  assumes fl: "flat F"
  shows "distinct (map fst kvs) \<Longrightarrow>
         \<forall>x \<in> set kvs. \<exists>e \<in> set (fschema F). fst e = fst x \<and>
            (snd x = Undefined \<or> (\<not> readOnly (props (snd e)) \<and>
               cast_scalar (foptions F) (props (snd e)) (snd x) = Inr (snd x))) \<Longrightarrow>
         fst ` set kvs \<subseteq> set (accessors J) \<Longrightarrow>
         \<forall>k \<in> fst ` set kvs. stored J k = Plain Undefined \<Longrightarrow>
         \<exists>J'. set_each W F J kvs = (W, J') \<and> accessors J' = accessors J \<and>
              (\<forall>k. stored J' k = (case map_of kvs k of Some v \<Rightarrow> Plain v | None \<Rightarrow> stored J k))"
proof (induction kvs arbitrary: J)
  case Nil
  then show ?case by simp
next
  case (Cons x kvs)
  from Cons.prems(2) obtain e where e: "e \<in> set (fschema F)" "fst e = fst x"
    and ok: "snd x = Undefined \<or> (\<not> readOnly (props (snd e)) \<and>
               cast_scalar (foptions F) (props (snd e)) (snd x) = Inr (snd x))" by auto
  have acc: "fst e \<in> set (accessors J)" using Cons.prems(3) e(2) by simp
  have un: "readOnly (props (snd e)) \<longrightarrow> stored J (fst e) = Plain Undefined"
    using Cons.prems(4) e(2) by simp
  from pset_flat [OF fl e(1) acc ok un, of "length (schema_keys W F)" W]
  obtain J1 where ps: "pset (length (schema_keys W F)) W F J (fst x) (snd x) = (W, J1)"
    and a1: "accessors J1 = accessors J"
    and s1: "\<forall>k. stored J1 k = (if k = fst x then Plain (snd x) else stored J k)"
    using e(2) by auto
  have nin: "fst x \<notin> fst ` set kvs" using Cons.prems(1) by auto
  have p1: "distinct (map fst kvs)" using Cons.prems(1) by simp
  have p2: "\<forall>x \<in> set kvs. \<exists>e \<in> set (fschema F). fst e = fst x \<and>
            (snd x = Undefined \<or> (\<not> readOnly (props (snd e)) \<and>
               cast_scalar (foptions F) (props (snd e)) (snd x) = Inr (snd x)))"
    using Cons.prems(2) by simp
  have p3: "fst ` set kvs \<subseteq> set (accessors J1)" using Cons.prems(3) a1 by auto
  have p4: "\<forall>k \<in> fst ` set kvs. stored J1 k = Plain Undefined"
  proof
    fix k assume k: "k \<in> fst ` set kvs"
    with nin have "k \<noteq> fst x" by blast
    moreover from k Cons.prems(4) have "stored J k = Plain Undefined" by auto
    ultimately show "stored J1 k = Plain Undefined" using s1 by simp
  qed
  from Cons.IH [OF p1 p2 p3 p4]
  obtain J' where se: "set_each W F J1 kvs = (W, J')" and a2: "accessors J' = accessors J1"
    and s2: "\<forall>k. stored J' k = (case map_of kvs k of Some v \<Rightarrow> Plain v | None \<Rightarrow> stored J1 k)"
    by blast
  have "set_each W F J (x # kvs) = (W, J')" using ps se by simp
  moreover have "accessors J' = accessors J" using a1 a2 by simp
  moreover have "\<forall>k. stored J' k = (case map_of (x # kvs) k of Some v \<Rightarrow> Plain v | None \<Rightarrow> stored J k)"
  proof
    fix k
    show "stored J' k = (case map_of (x # kvs) k of Some v \<Rightarrow> Plain v | None \<Rightarrow> stored J k)"
    proof (cases "k = fst x")
      case True
      with nin have "map_of kvs k = None" by (simp add: map_of_eq_None_iff)
      with s2 s1 True show ?thesis by (cases x) simp
    next
      case False
      with s2 s1 show ?thesis by (cases x) (simp split: option.splits)
    qed
  qed
  ultimately show ?case by blast
qed

lemma keys_put: "fst ` set (put k v xs) = insert k (fst ` set xs)"
  by (induction xs) auto

lemma distinct_put: "distinct (map fst xs) \<Longrightarrow> distinct (map fst (put k v xs))"
  by (induction xs) (auto simp: keys_put)

lemma distinct_project:
  "distinct (map fst getObj) \<Longrightarrow> distinct (map fst (project su es st getObj))"
  by (induction es arbitrary: getObj) (auto simp: distinct_put split: sval.splits)

lemma map_of_project:
  "distinct (map fst es) \<Longrightarrow>
   map_of (project su es st getObj) k =
     (case map_of es k of
        None \<Rightarrow> map_of getObj k
      | Some fs \<Rightarrow>
          if invisible (props fs) then map_of getObj k
          else (case st k of
                  Plain v \<Rightarrow> if v = Undefined \<and> \<not> su then map_of getObj k else Some v
                | _ \<Rightarrow> map_of getObj k))"
proof (induction es arbitrary: getObj)
  case Nil
  then show ?case by simp
next
  case (Cons e es)
  have d: "distinct (map fst es)" and nin: "fst e \<notin> fst ` set es" using Cons.prems by auto
  note ih = Cons.IH [OF d]
  show ?case
  proof (cases "k = fst e")
    case True
    with nin have none: "map_of es k = None" by (simp add: map_of_eq_None_iff)
    show ?thesis using True none ih
      by (cases e) (auto simp: map_of_put_upd split: sval.splits)
  next
    case False
    show ?thesis using False ih
      by (cases e) (auto simp: map_of_put_upd split: sval.splits option.splits)
  qed
qed

lemma project_cong:
  "\<forall>e \<in> set es. \<not> invisible (props (snd e)) \<longrightarrow> st2 (fst e) = st (fst e) \<Longrightarrow>
   project su es st2 getObj = project su es st getObj"
  by (induction es arbitrary: getObj) (auto split: sval.splits)




end
